theory Spec2Isabelle
  imports Complex_Main "HOL-Library.Word" "HOL-Library.Signed_Division"
begin

unbundle bit_operations_syntax

chapter \<open>The iZ library: lane arithmetic, wheel, sieves and random primes\<close>

text \<open>
  A shallow embedding of the C sources (\<^verbatim>\<open>src/iZ.c\<close>, \<^verbatim>\<open>src/modules/bitmap.c\<close>,
  \<^verbatim>\<open>src/modules/primes_obj.c\<close>, \<^verbatim>\<open>src/sieve/sieve_iZ.c\<close>, \<^verbatim>\<open>src/sieve/vx6.c\<close>,
  \<^verbatim>\<open>src/random_prime/random_iZprime.c\<close>).  \<^verbatim>\<open>uint64_t\<close> and \<^verbatim>\<open>size_t\<close> values whose
  wrap-around matters are \<open>64 word\<close>; bit indices and counts that stay far below
  \<open>2 ^ 64\<close> are \<open>nat\<close>; GMP integers are \<open>int\<close>.  Traps and undefined behaviour of
  the C code (division by zero, reads and writes outside an allocation, failed
  assertions, loops that do not end, a floating-point value converted to an integer
  type that cannot hold it) are values of the type \<open>fault\<close>.
\<close>

section \<open>Faults\<close>

datatype fault =
    DivisionByZero
  | OutOfBounds
  | InvalidArgument
  | IntegrityFailure
  | IoFailure
  | Diverges
  | AssertionFailed
  | Unrepresentable

type_synonym u64 = "64 word"
type_synonym u8 = "8 word"
type_synonym c_int = "32 word"

section \<open>iZ arithmetic (\<^verbatim>\<open>src/iZ.c\<close>)\<close>

text \<open>
  \<^verbatim>\<open>iZ_gmp(z, x, i)\<close>: \<open>z = 6 x + 1\<close> if \<open>i > 0\<close>, else \<open>6 x - 1\<close>, after the
  assertions \<open>i = -1 \<or> i = 1\<close> and \<open>x > 0\<close>.
\<close>

definition iZ_gmp :: "int \<Rightarrow> int \<Rightarrow> fault + int" where
  "iZ_gmp x i =
     (if \<not> (i = - 1 \<or> i = 1) then Inl AssertionFailed
      else if \<not> 0 < x then Inl AssertionFailed
      else Inr (if 0 < i then 6 * x + 1 else 6 * x - 1))"

text \<open>\<^verbatim>\<open>normalized_xp(matrix_id, p)\<close>, on \<^verbatim>\<open>uint64_t\<close>.\<close>

definition normalized_xp :: "int \<Rightarrow> u64 \<Rightarrow> u64" where
  "normalized_xp matrix_id p =
     (let x_p = (p + 1) div 6;
          p_id = (if p mod 6 = 1 then (1::int) else - 1)
      in if matrix_id < 0
         then (if p_id < 0 then x_p else p - x_p)
         else (if p_id < 0 then p - x_p else x_p))"

text \<open>
  \<^verbatim>\<open>solve_for_x\<close>: \<^verbatim>\<open>x = p - (vx * y - x_p) % p\<close> in unsigned 64-bit arithmetic.
  The remainder by \<open>p = 0\<close> traps.
\<close>

definition solve_for_x :: "int \<Rightarrow> u64 \<Rightarrow> u64 \<Rightarrow> u64 \<Rightarrow> fault + u64" where
  "solve_for_x matrix_id p vx y =
     (let x_p = normalized_xp matrix_id p
      in if p = 0 then Inl DivisionByZero
         else Inr (p - (vx * y - x_p) mod p))"

text \<open>
  \<^verbatim>\<open>solve_for_x_gmp\<close>: the same formula with \<open>vx * y - x_p\<close> computed exactly
  (\<^verbatim>\<open>mpz_mul_ui\<close>, \<^verbatim>\<open>mpz_sub_ui\<close>) and reduced by \<^verbatim>\<open>mpz_mod_ui\<close>, whose result is
  never negative.
\<close>

definition solve_for_x_gmp :: "int \<Rightarrow> u64 \<Rightarrow> u64 \<Rightarrow> int \<Rightarrow> fault + u64" where
  "solve_for_x_gmp matrix_id p vx y =
     (let x_p = normalized_xp matrix_id p
      in if p = 0 then Inl DivisionByZero
         else Inr (p - word_of_int ((y * uint vx - uint x_p) mod uint p)))"

text \<open>
  \<^verbatim>\<open>modular_inverse(a, m)\<close>: the extended Euclidean loop on C \<^verbatim>\<open>int\<close>s.  C division
  truncates towards zero (\<open>sdiv\<close>, \<open>smod\<close>); the quotient by \<open>m = 0\<close> traps.  The
  loop state is \<open>(a, m, x0, x1)\<close>; the loop returns \<open>x1\<close>.
\<close>

function mod_inv_loop :: "int \<Rightarrow> int \<Rightarrow> int \<Rightarrow> int \<Rightarrow> fault + int" where
  "mod_inv_loop a m x0 x1 =
     (if 1 < a
      then (if m = 0 then Inl DivisionByZero
            else mod_inv_loop m (a smod m) (x1 - (a sdiv m) * x0) x0)
      else Inr x1)"
  by pat_completeness auto
termination
proof (relation "measure (\<lambda>(a, m, x0, x1). if a \<le> 1 then 0 else if m \<le> 0 then 1 else 2 + nat m)")
  show "wf (measure (\<lambda>(a, m, x0, x1). if a \<le> 1 then 0 else if m \<le> 0 then 1 else 2 + nat m))"
    by simp
next
  fix a m x0 x1 :: int
  assume a: "1 < a" and m: "m \<noteq> 0"
  have r: "0 < m \<Longrightarrow> a smod m = a mod m"
    using a by (simp add: signed_modulo_int_def sgn_if)
  have "0 < m \<Longrightarrow> a mod m < m" by simp
  with a m r show "((m, a smod m, x1 - a sdiv m * x0, x0), a, m, x0, x1)
       \<in> measure (\<lambda>(a, m, x0, x1). if a \<le> 1 then 0 else if m \<le> 0 then 1 else 2 + nat m)"
    by (cases "0 < m") auto
qed

definition modular_inverse :: "int \<Rightarrow> int \<Rightarrow> fault + int" where
  "modular_inverse a m =
     (if m = 1 then Inr 0
      else case mod_inv_loop a m 0 1 of
             Inl e \<Rightarrow> Inl e
           | Inr x1 \<Rightarrow> Inr (if x1 < 0 then x1 + m else x1))"

text \<open>
  \<^verbatim>\<open>solve_for_y\<close>.  \<^verbatim>\<open>delta\<close> and \<^verbatim>\<open>vx_inv\<close> are C \<^verbatim>\<open>int\<close>s: the unsigned 64-bit
  remainder \<^verbatim>\<open>(x_p - x) % p\<close> is truncated to 32 bits, \<^verbatim>\<open>delta + p\<close> is computed in
  64 bits and truncated again, \<^verbatim>\<open>vx\<close> and \<^verbatim>\<open>p\<close> are truncated for the call of
  \<^verbatim>\<open>modular_inverse\<close>, and the \<^verbatim>\<open>int\<close> product is sign-extended before the final
  remainder.  \<^verbatim>\<open>return -1\<close> is the word \<open>- 1 = 2 ^ 64 - 1\<close>.
\<close>

definition solve_for_y :: "int \<Rightarrow> u64 \<Rightarrow> u64 \<Rightarrow> u64 \<Rightarrow> fault + u64" where
  "solve_for_y matrix_id p vx x =
     (if p = 0 then Inl DivisionByZero
      else if vx mod p = 0 then Inr (- 1)
      else
        let x_p = normalized_xp matrix_id p
        in if x mod p = x_p then Inr 0
           else
             let delta0 = (ucast ((x_p - x) mod p) :: c_int);
                 delta = (if sint delta0 < 0 then ucast ((scast delta0 :: u64) + p) else delta0)
             in case modular_inverse (sint (ucast vx :: c_int)) (sint (ucast p :: c_int)) of
                  Inl e \<Rightarrow> Inl e
                | Inr vx_inv \<Rightarrow>
                    Inr ((scast (delta * (word_of_int vx_inv :: c_int)) :: u64) mod p))"

section \<open>Bitmaps (\<^verbatim>\<open>src/modules/bitmap.c\<close>)\<close>

record BITMAP =
  b_size :: nat
  b_data :: "u8 list"
  b_sha256 :: "u8 list"

definition bitmap_create :: "nat \<Rightarrow> fault + BITMAP" where
  "bitmap_create sz =
     (if sz = 0 then Inl InvalidArgument
      else Inr \<lparr>b_size = sz, b_data = replicate ((sz + 7) div 8) 0, b_sha256 = replicate 32 0\<rparr>)"

definition bitmap_set_all :: "BITMAP \<Rightarrow> BITMAP" where
  "bitmap_set_all b = b\<lparr>b_data := replicate ((b_size b + 7) div 8) 255\<rparr>"

definition bitmap_set_bit :: "BITMAP \<Rightarrow> nat \<Rightarrow> fault + BITMAP" where
  "bitmap_set_bit b idx =
     (if idx div 8 < length (b_data b)
      then Inr (b\<lparr>b_data := (b_data b)[idx div 8 := (b_data b ! (idx div 8)) OR push_bit (idx mod 8) 1]\<rparr>)
      else Inl OutOfBounds)"

definition bitmap_get_bit :: "BITMAP \<Rightarrow> nat \<Rightarrow> fault + bool" where
  "bitmap_get_bit b idx =
     (if idx div 8 < length (b_data b)
      then Inr ((b_data b ! (idx div 8)) AND push_bit (idx mod 8) 1 \<noteq> 0)
      else Inl OutOfBounds)"

definition bitmap_clear_bit :: "BITMAP \<Rightarrow> nat \<Rightarrow> fault + BITMAP" where
  "bitmap_clear_bit b idx =
     (if idx div 8 < length (b_data b)
      then Inr (b\<lparr>b_data := (b_data b)[idx div 8 := (b_data b ! (idx div 8)) AND NOT (push_bit (idx mod 8) 1)]\<rparr>)
      else Inl OutOfBounds)"

function bitmap_clear_mod_p :: "BITMAP \<Rightarrow> nat \<Rightarrow> nat \<Rightarrow> nat \<Rightarrow> fault + BITMAP" where
  "bitmap_clear_mod_p b p idx limit =
     (if idx \<le> limit
      then (case bitmap_clear_bit b idx of
              Inl e \<Rightarrow> Inl e
            | Inr b' \<Rightarrow> if p = 0 then Inl Diverges else bitmap_clear_mod_p b' p (idx + p) limit)
      else Inr b)"
  by pat_completeness auto
termination
  by (relation "measure (\<lambda>(b, p, idx, limit). limit + 1 - idx)") auto

definition bitmap_clone :: "BITMAP \<Rightarrow> fault + BITMAP" where
  "bitmap_clone b =
     (case bitmap_create (b_size b) of
        Inl e \<Rightarrow> Inl e
      | Inr c \<Rightarrow> Inr (c\<lparr>b_data := take ((b_size b + 7) div 8) (b_data b)\<rparr>))"

definition bitmap_copy_bit :: "nat \<Rightarrow> nat \<Rightarrow> nat \<Rightarrow> fault + BITMAP \<Rightarrow> fault + BITMAP" where
  "bitmap_copy_bit dest_idx src_idx i acc =
     (case acc of
        Inl e \<Rightarrow> Inl e
      | Inr b \<Rightarrow>
          (case bitmap_get_bit b (src_idx + i) of
             Inl e \<Rightarrow> Inl e
           | Inr bt \<Rightarrow> if bt then bitmap_set_bit b (dest_idx + i) else bitmap_clear_bit b (dest_idx + i)))"

definition bitmap_copy :: "BITMAP \<Rightarrow> nat \<Rightarrow> nat \<Rightarrow> nat \<Rightarrow> fault + BITMAP" where
  "bitmap_copy b dest_idx src_idx len = fold (bitmap_copy_bit dest_idx src_idx) [0..<len] (Inr b)"

definition bitmap_duplicate_segment :: "BITMAP \<Rightarrow> nat \<Rightarrow> nat \<Rightarrow> nat \<Rightarrow> fault + BITMAP" where
  "bitmap_duplicate_segment b start_idx vx_size y =
     (if start_idx + vx_size * y > b_size b then Inr b
      else fold (\<lambda>i acc. case acc of
                            Inl e \<Rightarrow> Inl e
                          | Inr b' \<Rightarrow> bitmap_copy b' (start_idx + i * vx_size) start_idx vx_size)
                [1..<y] (Inr b))"

section \<open>Wheel construction (\<^verbatim>\<open>src/iZ.c\<close>)\<close>

definition s_primes :: "nat list" where
  "s_primes = [5, 7, 11, 13, 17, 19, 23, 29, 31, 37, 41, 43, 47, 53, 59, 61, 67, 71, 73, 79, 83, 89, 97]"

definition construct_vx2_step :: "nat \<Rightarrow> fault + BITMAP \<times> BITMAP \<Rightarrow> fault + BITMAP \<times> BITMAP" where
  "construct_vx2_step i acc =
     (case acc of
        Inl e \<Rightarrow> Inl e
      | Inr (x5, x7) \<Rightarrow>
          (case (if (i - 1) mod 5 \<noteq> 0 \<and> (i + 1) mod 7 \<noteq> 0 then bitmap_set_bit x5 i else Inr x5) of
             Inl e \<Rightarrow> Inl e
           | Inr x5' \<Rightarrow>
               (case (if (i + 1) mod 5 \<noteq> 0 \<and> (i - 1) mod 7 \<noteq> 0 then bitmap_set_bit x7 i else Inr x7) of
                  Inl e \<Rightarrow> Inl e
                | Inr x7' \<Rightarrow> Inr (x5', x7'))))"

definition construct_vx2 :: "BITMAP \<Rightarrow> BITMAP \<Rightarrow> fault + BITMAP \<times> BITMAP" where
  "construct_vx2 x5 x7 = fold construct_vx2_step [1..<36] (Inr (x5, x7))"

definition iZm_step :: "nat \<Rightarrow> nat \<Rightarrow> BITMAP \<Rightarrow> BITMAP \<Rightarrow> fault + BITMAP \<times> BITMAP" where
  "iZm_step p current_size x5 x7 =
     (let x = (p + 1) div 6 in
      case bitmap_duplicate_segment x5 1 current_size p of
        Inl e \<Rightarrow> Inl e
      | Inr x5a \<Rightarrow>
      case bitmap_duplicate_segment x7 1 current_size p of
        Inl e \<Rightarrow> Inl e
      | Inr x7a \<Rightarrow>
      let cs = current_size * p in
      if p mod 6 > 1
      then (case bitmap_clear_mod_p x5a p x (cs + 1) of
              Inl e \<Rightarrow> Inl e
            | Inr x5b \<Rightarrow>
            case bitmap_clear_mod_p x7a p (p * x - x) (cs + 1) of
              Inl e \<Rightarrow> Inl e
            | Inr x7b \<Rightarrow> Inr (x5b, x7b))
      else (case bitmap_clear_mod_p x5a p (p * x - x) (cs + 1) of
              Inl e \<Rightarrow> Inl e
            | Inr x5b \<Rightarrow>
            case bitmap_clear_mod_p x7a p x (cs + 1) of
              Inl e \<Rightarrow> Inl e
            | Inr x7b \<Rightarrow> Inr (x5b, x7b)))"

function iZm_loop :: "nat \<Rightarrow> nat \<Rightarrow> nat \<Rightarrow> BITMAP \<Rightarrow> BITMAP \<Rightarrow> fault + BITMAP \<times> BITMAP" where
  "iZm_loop vx idx current_size x5 x7 =
     (if idx < length s_primes
      then (if vx mod (s_primes ! idx) = 0
            then (case iZm_step (s_primes ! idx) current_size x5 x7 of
                    Inl e \<Rightarrow> Inl e
                  | Inr (x5', x7') \<Rightarrow>
                      iZm_loop vx (idx + 1) (current_size * (s_primes ! idx)) x5' x7')
            else Inr (x5, x7))
      else Inl OutOfBounds)"
  by pat_completeness auto
termination
  by (relation "measure (\<lambda>(vx, idx, cs, x5, x7). length s_primes - idx)") auto

definition construct_iZm_segment :: "nat \<Rightarrow> BITMAP \<Rightarrow> BITMAP \<Rightarrow> fault + BITMAP \<times> BITMAP" where
  "construct_iZm_segment vx x5 x7 =
     (case construct_vx2 x5 x7 of
        Inl e \<Rightarrow> Inl e
      | Inr (x5', x7') \<Rightarrow> iZm_loop vx 2 35 x5' x7')"

section \<open>Random primes (\<^verbatim>\<open>src/random_prime/random_iZprime.c\<close>, \<^verbatim>\<open>src/iZ.c\<close>)\<close>

















section \<open>Prime lists (\<^verbatim>\<open>src/modules/primes_obj.c\<close>)\<close>

text \<open>The prime list: \<open>p_array\<close> is the allocated array, of \<open>capacity\<close> entries when
  it is created, of which the first \<open>p_count\<close> are in use.  \<open>primes_obj_append\<close>
  checks no bound in the source: writing past the allocation is the fault
  \<open>OutOfBounds\<close>.\<close>

record PRIMES_OBJ =
  capacity :: int
  p_count :: int
  p_array :: "nat list"
  p_sha256 :: "u8 list"

definition primes_obj_init :: "int \<Rightarrow> fault + PRIMES_OBJ" where
  "primes_obj_init initial_estimate =
     (if initial_estimate \<le> 0 then Inl InvalidArgument
      else Inr \<lparr>capacity = initial_estimate, p_count = 0,
                p_array = replicate (nat initial_estimate) 0, p_sha256 = replicate 32 0\<rparr>)"

definition primes_obj_append :: "PRIMES_OBJ \<Rightarrow> nat \<Rightarrow> fault + PRIMES_OBJ" where
  "primes_obj_append obj p =
     (if 0 \<le> p_count obj \<and> nat (p_count obj) < length (p_array obj)
      then Inr (obj\<lparr>p_array := (p_array obj)[nat (p_count obj) := p], p_count := p_count obj + 1\<rparr>)
      else Inl OutOfBounds)"

definition primes_obj_resize_to_p_count :: "PRIMES_OBJ \<Rightarrow> fault + PRIMES_OBJ" where
  "primes_obj_resize_to_p_count obj =
     (if p_count obj \<le> 0 then Inl InvalidArgument
      else Inr (obj\<lparr>p_array := take (nat (p_count obj)) (p_array obj), capacity := p_count obj\<rparr>))"

section \<open>Binary files\<close>

text \<open>
  A file is the list of its bytes.  \<open>fwrite\<close> of an integer of \<open>n\<close> bytes appends its
  little-endian bytes (\<open>le_bytes\<close>), \<open>fread\<close> takes them back (\<open>le_value\<close>); a read
  that finds fewer bytes than it asked for is the fault \<open>IoFailure\<close>.  The digest
  function of OpenSSL is the parameter \<open>H\<close> of every function that hashes.
\<close>

type_synonym u16 = "16 word"


text \<open>The \<open>n\<close> little-endian bytes of \<open>v\<close>, the value of a list of bytes, and \<open>n\<close>
  consecutive items of \<open>sz\<close> bytes each.\<close>

fun le_bytes :: "nat \<Rightarrow> nat \<Rightarrow> u8 list" where
  "le_bytes 0 v = []"
| "le_bytes (Suc n) v = of_nat (v mod 256) # le_bytes n (v div 256)"

fun le_value :: "u8 list \<Rightarrow> nat" where
  "le_value [] = 0"
| "le_value (b # bs) = unat b + 256 * le_value bs"

fun read_items :: "nat \<Rightarrow> nat \<Rightarrow> u8 list \<Rightarrow> nat list" where
  "read_items sz 0 bs = []"
| "read_items sz (Suc n) bs = le_value (take sz bs) # read_items sz n (drop sz bs)"

text \<open>\<open>bitmap_compute_hash\<close> hashes the \<open>(size + 7) / 8\<close> bytes of the data.
  \<open>bitmap_write_file\<close> writes the size (a \<open>size_t\<close>, 8 bytes), the bytes and the
  digest; \<open>bitmap_read_file\<close> creates a bitmap of the size it reads (\<open>bitmap_create\<close>
  refuses 0), fills it, and compares the stored digest with the recomputed one.\<close>

definition bitmap_compute_hash :: "(u8 list \<Rightarrow> u8 list) \<Rightarrow> BITMAP \<Rightarrow> BITMAP" where
  "bitmap_compute_hash H b = b\<lparr>b_sha256 := H (take ((b_size b + 7) div 8) (b_data b))\<rparr>"

definition bitmap_write_file :: "(u8 list \<Rightarrow> u8 list) \<Rightarrow> BITMAP \<Rightarrow> u8 list \<times> BITMAP" where
  "bitmap_write_file H b =
     (let byte_size = (b_size b + 7) div 8;
          b' = bitmap_compute_hash H b
      in (le_bytes 8 (b_size b) @ take byte_size (b_data b) @ take 32 (b_sha256 b'), b'))"

definition bitmap_read_file :: "(u8 list \<Rightarrow> u8 list) \<Rightarrow> u8 list \<Rightarrow> fault + BITMAP" where
  "bitmap_read_file H file =
     (if length file < 8 then Inl IoFailure
      else
        let sz = le_value (take 8 file) in
        case bitmap_create sz of
          Inl e \<Rightarrow> Inl e
        | Inr b \<Rightarrow>
            let byte_size = (sz + 7) div 8;
                rest = drop 8 file
            in if length rest < byte_size then Inl IoFailure
               else
                 let rest2 = drop byte_size rest in
                 if length rest2 < 32 then Inl IoFailure
                 else
                   let stored_sha256 = take 32 rest2;
                       b' = bitmap_compute_hash H (b\<lparr>b_data := take byte_size rest\<rparr>)
                   in if stored_sha256 \<noteq> take 32 (b_sha256 b') then Inl IntegrityFailure
                      else Inr b')"

text \<open>\<open>primes_obj_compute_hash\<close> leaves the digest alone when the list is empty.
  The file is the count (an \<open>int\<close>, 4 bytes), the primes (8 bytes each) and the
  digest.  The reader allocates with \<open>primes_obj_init\<close> of the count it read.\<close>

definition primes_bytes :: "PRIMES_OBJ \<Rightarrow> u8 list" where
  "primes_bytes obj = concat (map (le_bytes 8) (take (nat (p_count obj)) (p_array obj)))"

definition primes_obj_compute_hash :: "(u8 list \<Rightarrow> u8 list) \<Rightarrow> PRIMES_OBJ \<Rightarrow> PRIMES_OBJ" where
  "primes_obj_compute_hash H obj =
     (if p_count obj = 0 then obj else obj\<lparr>p_sha256 := H (primes_bytes obj)\<rparr>)"

definition primes_obj_write_file :: "(u8 list \<Rightarrow> u8 list) \<Rightarrow> PRIMES_OBJ \<Rightarrow> u8 list \<times> PRIMES_OBJ" where
  "primes_obj_write_file H obj =
     (let obj' = primes_obj_compute_hash H obj
      in (le_bytes 4 (nat (p_count obj' mod 2 ^ 32)) @ primes_bytes obj' @ take 32 (p_sha256 obj'), obj'))"

definition primes_obj_read_file :: "(u8 list \<Rightarrow> u8 list) \<Rightarrow> u8 list \<Rightarrow> fault + PRIMES_OBJ" where
  "primes_obj_read_file H file =
     (if length file < 4 then Inl IoFailure
      else
        let u = le_value (take 4 file);
            cnt = (if u < 2 ^ 31 then int u else int u - 2 ^ 32)
        in case primes_obj_init cnt of
             Inl e \<Rightarrow> Inl e
           | Inr obj \<Rightarrow>
               let rest = drop 4 file in
               if length rest < 8 * nat cnt then Inl IoFailure
               else
                 let rest2 = drop (8 * nat cnt) rest in
                 if length rest2 < 32 then Inl IoFailure
                 else
                   let obj' = obj\<lparr>p_count := cnt, p_array := read_items 8 (nat cnt) rest,
                                   p_sha256 := take 32 rest2\<rparr>
                   in if take 32 (H (primes_bytes obj')) \<noteq> p_sha256 obj' then Inl IntegrityFailure
                      else Inr obj')"

text \<open>The block of \<open>vx6\<close>; each field carries the prefix \<open>vx_\<close>.  \<open>vx_y\<close> is a string (its bytes, without the final NUL),
  \<open>vx_p_gaps\<close> the allocated array of 16-bit gaps.  The writer writes the length of
  \<open>vx_y\<close> with its NUL (8 bytes), the string, 8 bytes at the address of the 4-byte
  \<open>p_count\<close> (the count and the 4 bytes after it, \<open>pad\<close>), the gaps and the digest,
  which \<open>hash_int_array\<close> leaves alone when there is nothing to hash.  The reader
  fills the object it is given; with a count of 0 it compares the stored digest
  with a buffer that was never written, which is a fault here.\<close>

record VX_OBJ =
  vx_vx :: int
  vx_y :: "u8 list"
  vx_p_count :: int
  vx_x5 :: "BITMAP option"
  vx_x7 :: "BITMAP option"
  vx_p_gaps :: "u16 list"
  vx_sha256 :: "u8 list"

definition gaps_bytes :: "VX_OBJ \<Rightarrow> u8 list" where
  "gaps_bytes obj = concat (map (\<lambda>g. le_bytes 2 (unat g)) (take (nat (vx_p_count obj)) (vx_p_gaps obj)))"

definition vx6_write_file :: "(u8 list \<Rightarrow> u8 list) \<Rightarrow> u8 list \<Rightarrow> VX_OBJ \<Rightarrow> u8 list \<times> VX_OBJ" where
  "vx6_write_file H pad obj =
     (let y_len = length (takeWhile (\<lambda>c. c \<noteq> 0) (vx_y obj)) + 1;
          obj' = (if vx_p_count obj = 0 then obj else obj\<lparr>vx_sha256 := H (gaps_bytes obj)\<rparr>)
      in (le_bytes 8 y_len @ takeWhile (\<lambda>c. c \<noteq> 0) (vx_y obj) @ [0]
          @ le_bytes 4 (nat (vx_p_count obj mod 2 ^ 32)) @ take 4 pad
          @ gaps_bytes obj @ take 32 (vx_sha256 obj'), obj'))"

definition vx6_read_file :: "(u8 list \<Rightarrow> u8 list) \<Rightarrow> VX_OBJ \<Rightarrow> u8 list \<Rightarrow> fault + VX_OBJ" where
  "vx6_read_file H obj file =
     (if length file < 8 then Inl IoFailure
      else
        let y_len = le_value (take 8 file);
            rest = drop 8 file
        in if length rest < y_len then Inl IoFailure
           else
             let ybytes = take y_len rest;
                 rest2 = drop y_len rest
             in if length rest2 < 8 then Inl IoFailure
                else
                  let u = le_value (take 4 rest2);
                      cnt = (if u < 2 ^ 31 then int u else int u - 2 ^ 32);
                      rest3 = drop 8 rest2
                  in if cnt < 0 then Inl IoFailure
                     else if length (vx_p_gaps obj) < nat cnt then Inl OutOfBounds
                     else if length rest3 < 2 * nat cnt then Inl IoFailure
                     else
                       let rest4 = drop (2 * nat cnt) rest3 in
                       if length rest4 < 32 then Inl IoFailure
                       else
                         let gaps = map of_nat (read_items 2 (nat cnt) rest3);
                             obj' = obj\<lparr>vx_y := takeWhile (\<lambda>c. c \<noteq> 0) ybytes, vx_p_count := cnt,
                                        vx_p_gaps := gaps @ drop (nat cnt) (vx_p_gaps obj),
                                        vx_sha256 := take 32 rest4\<rparr>
                         in if cnt = 0 then Inl IntegrityFailure
                            else if take 32 (H (gaps_bytes obj')) \<noteq> vx_sha256 obj'
                            then Inl IntegrityFailure
                            else Inr obj')"

section \<open>The sieves (\<^verbatim>\<open>src/sieve/sieve_iZ.c\<close>)\<close>

text \<open>Sequencing of two steps of which the first may fault.\<close>

definition thn :: "fault + 'a \<Rightarrow> ('a \<Rightarrow> fault + 'b) \<Rightarrow> fault + 'b" where
  "thn m f = (case m of Inl e \<Rightarrow> Inl e | Inr v \<Rightarrow> f v)"

text \<open>
  \<^verbatim>\<open>iZ(x, i)\<close> on \<^verbatim>\<open>uint64_t\<close>.  The third assertion compares \<^verbatim>\<open>x * 6\<close>, converted to
  \<^verbatim>\<open>double\<close>, with \<open>2 ^ 64\<close>: the conversion rounds to \<open>2 ^ 64\<close> from \<open>2 ^ 64 - 1024\<close> on.
\<close>

definition iZ :: "u64 \<Rightarrow> int \<Rightarrow> fault + u64" where
  "iZ x i =
     (if \<not> (i = - 1 \<or> i = 1) then Inl AssertionFailed
      else if \<not> 0 < x then Inl AssertionFailed
      else if \<not> x * 6 < 0xFFFFFFFFFFFFFC00 then Inl AssertionFailed
      else Inr (6 * x + word_of_int i))"

text \<open>
  \<^verbatim>\<open>pi_n(n)\<close> is \<^verbatim>\<open>n / log(n)\<close> on the \<^verbatim>\<open>int64_t\<close> reading of \<open>n\<close>, converted to
  \<^verbatim>\<open>uint64_t\<close>.  The model computes in the reals, not in \<^verbatim>\<open>double\<close>.  For \<open>n = 0\<close> the
  quotient is \<open>-0.0\<close>; for \<open>n = 1\<close> it is infinite and for \<open>n < 0\<close> not a number, which
  no integer type holds.
\<close>

definition pi_n :: "u64 \<Rightarrow> fault + u64" where
  "pi_n n =
     (let v = sint n
      in if v = 0 then Inr 0
         else if v < 2 then Inl Unrepresentable
         else Inr (word_of_int \<lfloor>real_of_int v / ln (real_of_int v)\<rfloor>))"

text \<open>
  The argument \<^verbatim>\<open>pi_n(n) * 1.5\<close> of \<^verbatim>\<open>primes_obj_init\<close>, a \<^verbatim>\<open>double\<close> converted to
  \<^verbatim>\<open>int\<close> by truncation.
\<close>

definition capacity_estimate :: "u64 \<Rightarrow> fault + int" where
  "capacity_estimate n =
     thn (pi_n n) (\<lambda>c.
       let est = (3 * uint c) div 2
       in if est < 2 ^ 31 then Inr est else Inl Unrepresentable)"

text \<open>\<^verbatim>\<open>n_sqrt = sqrt(n) + 1\<close>, converted to \<^verbatim>\<open>uint64_t\<close>; again in the reals.\<close>

definition n_sqrt :: "u64 \<Rightarrow> u64" where
  "n_sqrt n = word_of_int (\<lfloor>sqrt (real (unat n))\<rfloor> + 1)"

type_synonym sieve_state = "PRIMES_OBJ \<times> BITMAP \<times> BITMAP"

text \<open>
  The body of the main loop of \<^verbatim>\<open>sieve_iZ\<close> at \<open>x\<close>: the block for \<open>x5\<close>, then the
  block for \<open>x7\<close>.
\<close>

definition sieve_iZ_x5 :: "u64 \<Rightarrow> u64 \<Rightarrow> u64 \<Rightarrow> sieve_state \<Rightarrow> fault + sieve_state" where
  "sieve_iZ_x5 x_n nsq x s =
     (case s of (primes, x5, x7) \<Rightarrow>
        thn (bitmap_get_bit x5 (unat x)) (\<lambda>bit.
          if bit
          then thn (iZ x (- 1)) (\<lambda>z.
               thn (primes_obj_append primes (unat z)) (\<lambda>primes.
                 if z < nsq
                 then thn (bitmap_clear_mod_p x5 (unat z) (unat (z * x + x)) (unat x_n)) (\<lambda>x5.
                      thn (bitmap_clear_mod_p x7 (unat z) (unat (z * x - x)) (unat x_n)) (\<lambda>x7.
                        Inr (primes, x5, x7)))
                 else Inr (primes, x5, x7)))
          else Inr s))"

definition sieve_iZ_x7 :: "u64 \<Rightarrow> u64 \<Rightarrow> u64 \<Rightarrow> sieve_state \<Rightarrow> fault + sieve_state" where
  "sieve_iZ_x7 x_n nsq x s =
     (case s of (primes, x5, x7) \<Rightarrow>
        thn (bitmap_get_bit x7 (unat x)) (\<lambda>bit.
          if bit
          then thn (iZ x 1) (\<lambda>z.
               thn (primes_obj_append primes (unat z)) (\<lambda>primes.
                 if z < nsq
                 then thn (bitmap_clear_mod_p x5 (unat z) (unat (z * x - x)) (unat x_n)) (\<lambda>x5.
                      thn (bitmap_clear_mod_p x7 (unat z) (unat (z * x + x)) (unat x_n)) (\<lambda>x7.
                        Inr (primes, x5, x7)))
                 else Inr (primes, x5, x7)))
          else Inr s))"

definition sieve_iZ_step :: "u64 \<Rightarrow> u64 \<Rightarrow> nat \<Rightarrow> fault + sieve_state \<Rightarrow> fault + sieve_state" where
  "sieve_iZ_step x_n nsq x acc =
     thn acc (\<lambda>s. thn (sieve_iZ_x5 x_n nsq (of_nat x) s) (sieve_iZ_x7 x_n nsq (of_nat x)))"

text \<open>
  The edge case after the loops: \<^verbatim>\<open>if (primes->p_array[primes->p_count - 1] > n)
  primes->p_count--\<close>.
\<close>

definition drop_last_above :: "u64 \<Rightarrow> PRIMES_OBJ \<Rightarrow> fault + PRIMES_OBJ" where
  "drop_last_above n primes =
     (if 0 < p_count primes \<and> nat (p_count primes - 1) < length (p_array primes)
      then Inr (if unat n < p_array primes ! nat (p_count primes - 1)
                then primes\<lparr>p_count := p_count primes - 1\<rparr> else primes)
      else Inl OutOfBounds)"

text \<open>
  \<^verbatim>\<open>sieve_iZ(n)\<close> from the first \<^verbatim>\<open>primes_obj_append\<close> on (\<open>sieve_iZ_run\<close>), and the
  whole function.  A function that returns \<^verbatim>\<open>NULL\<close> returns the fault of the call that
  failed.
\<close>

definition sieve_iZ_run :: "u64 \<Rightarrow> u64 \<Rightarrow> PRIMES_OBJ \<Rightarrow> fault + PRIMES_OBJ" where
  "sieve_iZ_run n nsq primes =
     thn (primes_obj_append primes 2) (\<lambda>primes.
     thn (primes_obj_append primes 3) (\<lambda>primes.
       let x_n = (n + 1) div 6 + 1 in
       thn (bitmap_create (unat (x_n + 1))) (\<lambda>x5.
       thn (bitmap_create (unat (x_n + 1))) (\<lambda>x7.
         let x5 = bitmap_set_all x5;
             x7 = bitmap_set_all x7
         in thn (fold (sieve_iZ_step x_n nsq) [1..<unat x_n] (Inr (primes, x5, x7)))
              (\<lambda>(primes, x5, x7).
                 thn (drop_last_above n primes) primes_obj_resize_to_p_count)))))"

definition sieve_iZ :: "u64 \<Rightarrow> fault + PRIMES_OBJ" where
  "sieve_iZ n =
     thn (capacity_estimate n) (\<lambda>est.
     thn (primes_obj_init est) (sieve_iZ_run n (n_sqrt n)))"

text \<open>\<^verbatim>\<open>compute_limited_vx(x_n, vx_limit)\<close> of \<^verbatim>\<open>src/iZ.c\<close>.\<close>

function limited_vx_loop :: "u64 \<Rightarrow> int \<Rightarrow> u64 \<Rightarrow> nat \<Rightarrow> fault + u64" where
  "limited_vx_loop x_n vx_limit vx i =
     (if i < length s_primes
      then (if vx * of_nat (s_primes ! i) < x_n div 2 \<and> int i < vx_limit
            then limited_vx_loop x_n vx_limit (vx * of_nat (s_primes ! i)) (i + 1)
            else Inr vx)
      else Inl OutOfBounds)"
  by pat_completeness auto
termination
  by (relation "measure (\<lambda>(x_n, vx_limit, vx, i). length s_primes - i)") auto

definition compute_limited_vx :: "u64 \<Rightarrow> int \<Rightarrow> fault + u64" where
  "compute_limited_vx x_n vx_limit = limited_vx_loop x_n vx_limit 35 2"

text \<open>
  \<^verbatim>\<open>sieve_iZm\<close>: the loop that appends the primes dividing \<open>vx\<close> and counts them in
  \<^verbatim>\<open>start_i\<close>; the local table of the function has 13 entries.
\<close>

definition s_primes_iZm :: "nat list" where
  "s_primes_iZm = [5, 7, 11, 13, 17, 19, 23, 29, 31, 37, 41, 43, 47]"

function presieved_loop :: "u64 \<Rightarrow> int \<Rightarrow> nat \<Rightarrow> PRIMES_OBJ \<Rightarrow> int \<Rightarrow> fault + PRIMES_OBJ \<times> int" where
  "presieved_loop vx vx_limit i primes start_i =
     (if int i < vx_limit
      then (if i < length s_primes_iZm
            then (if s_primes_iZm ! i = 0 then Inl DivisionByZero
                  else if unat vx mod (s_primes_iZm ! i) = 0
                  then thn (primes_obj_append primes (s_primes_iZm ! i)) (\<lambda>primes.
                         presieved_loop vx vx_limit (i + 1) primes (start_i + 1))
                  else Inr (primes, start_i))
            else Inl OutOfBounds)
      else Inr (primes, start_i))"
  by pat_completeness auto
termination
  by (relation "measure (\<lambda>(vx, vx_limit, i, primes, start_i). nat vx_limit - i)") auto

text \<open>Step 3 of \<^verbatim>\<open>sieve_iZm\<close>: the first segment, \<open>x\<close> from 2 to \<open>vx\<close>, on the clones.\<close>

definition iZm_first_x5 :: "u64 \<Rightarrow> u64 \<Rightarrow> sieve_state \<Rightarrow> fault + sieve_state" where
  "iZm_first_x5 vx x s =
     (case s of (primes, tmp5, tmp7) \<Rightarrow>
        thn (bitmap_get_bit tmp5 (unat x)) (\<lambda>bit.
          if bit
          then thn (iZ x (- 1)) (\<lambda>p.
               thn (primes_obj_append primes (unat p)) (\<lambda>primes.
                 if (p * p) div 6 < vx
                 then thn (bitmap_clear_mod_p tmp5 (unat p) (unat (p * x + x)) (unat vx)) (\<lambda>tmp5.
                      thn (bitmap_clear_mod_p tmp7 (unat p) (unat (p * x - x)) (unat vx)) (\<lambda>tmp7.
                        Inr (primes, tmp5, tmp7)))
                 else Inr (primes, tmp5, tmp7)))
          else Inr s))"

definition iZm_first_x7 :: "u64 \<Rightarrow> u64 \<Rightarrow> sieve_state \<Rightarrow> fault + sieve_state" where
  "iZm_first_x7 vx x s =
     (case s of (primes, tmp5, tmp7) \<Rightarrow>
        thn (bitmap_get_bit tmp7 (unat x)) (\<lambda>bit.
          if bit
          then thn (iZ x 1) (\<lambda>p.
               thn (primes_obj_append primes (unat p)) (\<lambda>primes.
                 if (p * p) div 6 < vx
                 then thn (bitmap_clear_mod_p tmp5 (unat p) (unat (p * x - x)) (unat vx)) (\<lambda>tmp5.
                      thn (bitmap_clear_mod_p tmp7 (unat p) (unat (p * x + x)) (unat vx)) (\<lambda>tmp7.
                        Inr (primes, tmp5, tmp7)))
                 else Inr (primes, tmp5, tmp7)))
          else Inr s))"

definition iZm_first_step :: "u64 \<Rightarrow> nat \<Rightarrow> fault + sieve_state \<Rightarrow> fault + sieve_state" where
  "iZm_first_step vx x acc =
     thn acc (\<lambda>s. thn (iZm_first_x5 vx (of_nat x) s) (iZm_first_x7 vx (of_nat x)))"

text \<open>
  Step 4: in segment \<open>y\<close>, the loop over the root primes \<^verbatim>\<open>p_array[i]\<close>,
  \<open>start_i \<le> i < p_count\<close>, which stops at the first \<open>p\<close> with
  \<open>p * p / 6 > y * vx + limit\<close>; \<open>y\<close> is an \<^verbatim>\<open>int\<close>, converted to \<^verbatim>\<open>size_t\<close> in the
  product.
\<close>

function iZm_mark_loop ::
  "PRIMES_OBJ \<Rightarrow> u64 \<Rightarrow> int \<Rightarrow> u64 \<Rightarrow> int \<Rightarrow> BITMAP \<times> BITMAP \<Rightarrow> fault + BITMAP \<times> BITMAP" where
  "iZm_mark_loop primes vx y limit i tmp =
     (if i < p_count primes
      then (if 0 \<le> i \<and> nat i < length (p_array primes)
            then (let p = (of_nat (p_array primes ! nat i) :: u64)
                  in if (p * p) div 6 > word_of_int y * vx + limit then Inr tmp
                     else thn (solve_for_x (- 1) p vx (word_of_int y)) (\<lambda>xp5.
                          thn (solve_for_x 1 p vx (word_of_int y)) (\<lambda>xp7.
                          thn (bitmap_clear_mod_p (fst tmp) (unat p) (unat xp5) (unat limit)) (\<lambda>tmp5.
                          thn (bitmap_clear_mod_p (snd tmp) (unat p) (unat xp7) (unat limit)) (\<lambda>tmp7.
                            iZm_mark_loop primes vx y limit (i + 1) (tmp5, tmp7))))))
            else Inl OutOfBounds)
      else Inr tmp)"
  by pat_completeness auto
termination
  by (relation "measure (\<lambda>(primes, vx, y, limit, i, tmp). nat (p_count primes - i))") auto

text \<open>The collection loop of segment \<open>y\<close> at \<open>x\<close>, \<open>1 \<le> x \<le> limit\<close>.\<close>

definition iZm_collect_step ::
  "u64 \<Rightarrow> BITMAP \<Rightarrow> BITMAP \<Rightarrow> nat \<Rightarrow> fault + PRIMES_OBJ \<Rightarrow> fault + PRIMES_OBJ" where
  "iZm_collect_step yvx tmp5 tmp7 x acc =
     thn acc (\<lambda>primes.
     thn (bitmap_get_bit tmp5 x) (\<lambda>bit5.
     thn (if bit5 then thn (iZ (of_nat x + yvx) (- 1)) (\<lambda>z. primes_obj_append primes (unat z))
          else Inr primes) (\<lambda>primes.
     thn (bitmap_get_bit tmp7 x) (\<lambda>bit7.
       if bit7 then thn (iZ (of_nat x + yvx) 1) (\<lambda>z. primes_obj_append primes (unat z))
       else Inr primes))))"

text \<open>One segment \<open>y\<close>, \<open>1 \<le> y \<le> max_y\<close>; the state is the prime list and \<open>limit\<close>.\<close>

definition iZm_segment ::
  "u64 \<Rightarrow> u64 \<Rightarrow> int \<Rightarrow> int \<Rightarrow> BITMAP \<Rightarrow> BITMAP \<Rightarrow> int
     \<Rightarrow> fault + PRIMES_OBJ \<times> u64 \<Rightarrow> fault + PRIMES_OBJ \<times> u64" where
  "iZm_segment x_n vx max_y start_i x5 x7 y acc =
     thn acc (\<lambda>(primes, limit).
     thn (bitmap_clone x5) (\<lambda>tmp5.
     thn (bitmap_clone x7) (\<lambda>tmp7.
       if vx = 0 then Inl DivisionByZero
       else
         let limit = (if y = max_y then x_n mod vx else limit) in
         thn (iZm_mark_loop primes vx y limit start_i (tmp5, tmp7)) (\<lambda>(tmp5, tmp7).
           let yvx = word_of_int y * vx in
           thn (fold (iZm_collect_step yvx tmp5 tmp7) [1..<unat limit + 1] (Inr primes))
             (\<lambda>primes. Inr (primes, limit))))))"

text \<open>The edge case of \<^verbatim>\<open>sieve_iZm\<close>: \<^verbatim>\<open>while (primes->p_array[primes->p_count - 1] > n)
  primes->p_count--\<close>.\<close>

function drop_above :: "u64 \<Rightarrow> PRIMES_OBJ \<Rightarrow> fault + PRIMES_OBJ" where
  "drop_above n primes =
     (if 0 < p_count primes \<and> nat (p_count primes - 1) < length (p_array primes)
      then (if unat n < p_array primes ! nat (p_count primes - 1)
            then drop_above n (primes\<lparr>p_count := p_count primes - 1\<rparr>)
            else Inr primes)
      else Inl OutOfBounds)"
  by pat_completeness auto
termination
  by (relation "measure (\<lambda>(n, primes). nat (p_count primes))") auto

text \<open>
  \<^verbatim>\<open>sieve_iZm(n)\<close> from the first \<^verbatim>\<open>primes_obj_append\<close> on, and the whole function.
  \<^verbatim>\<open>max_y\<close> is the quotient \<open>x_n / vx\<close> stored in an \<^verbatim>\<open>int\<close>.
\<close>

definition sieve_iZm_run :: "u64 \<Rightarrow> PRIMES_OBJ \<Rightarrow> fault + PRIMES_OBJ" where
  "sieve_iZm_run n primes =
     (let x_n = (n + 1) div 6 + 1 in
      thn (primes_obj_append primes 2) (\<lambda>primes.
      thn (primes_obj_append primes 3) (\<lambda>primes.
      thn (compute_limited_vx x_n 6) (\<lambda>vx.
      thn (presieved_loop vx 6 0 primes 2) (\<lambda>(primes, start_i).
      thn (bitmap_create (unat (vx + 10))) (\<lambda>x5.
      thn (bitmap_create (unat (vx + 10))) (\<lambda>x7.
      thn (construct_iZm_segment (unat vx) x5 x7) (\<lambda>(x5, x7).
      thn (bitmap_clone x5) (\<lambda>tmp5.
      thn (bitmap_clone x7) (\<lambda>tmp7.
      thn (fold (iZm_first_step vx) [2..<unat vx + 1] (Inr (primes, tmp5, tmp7)))
        (\<lambda>(primes, tmp5, tmp7).
           let max_y = sint (ucast (x_n div vx) :: c_int) in
           thn (fold (iZm_segment x_n vx max_y start_i x5 x7) [1..max_y] (Inr (primes, vx)))
             (\<lambda>(primes, limit).
                thn (drop_above n primes) primes_obj_resize_to_p_count))))))))))))"

definition sieve_iZm :: "u64 \<Rightarrow> fault + PRIMES_OBJ" where
  "sieve_iZm n =
     thn (capacity_estimate n) (\<lambda>est.
     thn (primes_obj_init est) (sieve_iZm_run n))"

section \<open>The gap walk of \<^verbatim>\<open>vx6_sieve\<close> (\<^verbatim>\<open>src/sieve/vx6.c\<close>)\<close>


text \<open>
  The last loop of \<^verbatim>\<open>vx6_sieve\<close>, which walks \<open>x\<close> from 4 to \<open>vx6\<close>.  Its inputs are the
  object, whose bitmaps have been marked by the loop before it, the flag
  \<^verbatim>\<open>is_large_limit\<close>, the product \<^verbatim>\<open>yvx\<close> and the number of rounds (25 when the
  caller passed 0); the test
  \<^verbatim>\<open>mpz_probab_prime_p\<close> is the parameter \<open>pt\<close>.  \<^verbatim>\<open>gap\<close> is an \<^verbatim>\<open>int\<close>, which stays below
  \<open>6 vx6 + 18\<close>; \<^verbatim>\<open>p_gaps\<close> is an array of \<^verbatim>\<open>uint16_t\<close>, so that the assignment
  \<^verbatim>\<open>p_gaps[p_count++] = gap\<close> keeps the low 16 bits of \<open>gap\<close>.  The array is written
  without a check: an index outside it is the fault \<open>OutOfBounds\<close>, as is the use of
  a bitmap that was not allocated.
\<close>

definition vx6_is_prime :: "(int \<Rightarrow> int \<Rightarrow> bool) \<Rightarrow> bool \<Rightarrow> int \<Rightarrow> int \<Rightarrow> int \<Rightarrow> int \<Rightarrow> fault + bool" where
  "vx6_is_prime pt is_large_limit p_test_rounds yvx x i =
     (if is_large_limit
      then thn (iZ_gmp (yvx + x) i) (\<lambda>p. Inr (pt p p_test_rounds))
      else Inr True)"

definition vx6_record_gap :: "VX_OBJ \<Rightarrow> int \<Rightarrow> fault + VX_OBJ \<times> int" where
  "vx6_record_gap obj gap =
     (if 0 \<le> vx_p_count obj \<and> nat (vx_p_count obj) < length (vx_p_gaps obj)
      then Inr (obj\<lparr>vx_p_gaps := (vx_p_gaps obj)[nat (vx_p_count obj) := word_of_int gap],
                    vx_p_count := vx_p_count obj + 1\<rparr>, 0)
      else Inl OutOfBounds)"

definition vx6_walk_x5 ::
  "(int \<Rightarrow> int \<Rightarrow> bool) \<Rightarrow> bool \<Rightarrow> int \<Rightarrow> int \<Rightarrow> int \<Rightarrow> VX_OBJ \<times> int \<Rightarrow> fault + VX_OBJ \<times> int" where
  "vx6_walk_x5 pt is_large_limit p_test_rounds yvx x s =
     (case s of (obj, gap) \<Rightarrow>
        (case vx_x5 obj of
           None \<Rightarrow> Inl OutOfBounds
         | Some x5 \<Rightarrow>
             thn (bitmap_get_bit x5 (nat x)) (\<lambda>bit.
               if bit
               then thn (vx6_is_prime pt is_large_limit p_test_rounds yvx x (- 1)) (\<lambda>is_prime.
                      if is_prime then vx6_record_gap obj gap
                      else thn (bitmap_clear_bit x5 (nat x)) (\<lambda>x5.
                             Inr (obj\<lparr>vx_x5 := Some x5\<rparr>, gap)))
               else Inr s)))"

definition vx6_walk_x7 ::
  "(int \<Rightarrow> int \<Rightarrow> bool) \<Rightarrow> bool \<Rightarrow> int \<Rightarrow> int \<Rightarrow> int \<Rightarrow> VX_OBJ \<times> int \<Rightarrow> fault + VX_OBJ \<times> int" where
  "vx6_walk_x7 pt is_large_limit p_test_rounds yvx x s =
     (case s of (obj, gap) \<Rightarrow>
        (case vx_x7 obj of
           None \<Rightarrow> Inl OutOfBounds
         | Some x7 \<Rightarrow>
             thn (bitmap_get_bit x7 (nat x)) (\<lambda>bit.
               if bit
               then thn (vx6_is_prime pt is_large_limit p_test_rounds yvx x 1) (\<lambda>is_prime.
                      if is_prime then vx6_record_gap obj gap
                      else thn (bitmap_clear_bit x7 (nat x)) (\<lambda>x7.
                             Inr (obj\<lparr>vx_x7 := Some x7\<rparr>, gap)))
               else Inr s)))"




section \<open>Specification vocabulary\<close>

definition bit_at :: "BITMAP \<Rightarrow> nat \<Rightarrow> bool" where
  "bit_at b i = (bitmap_get_bit b i = Inr True)"

definition same_shape :: "BITMAP \<Rightarrow> BITMAP \<Rightarrow> bool" where
  "same_shape b' b = (length (b_data b') = length (b_data b) \<and> b_size b' = b_size b)"

definition dup_body :: "nat \<Rightarrow> nat \<Rightarrow> nat \<Rightarrow> fault + BITMAP \<Rightarrow> fault + BITMAP" where
  "dup_body start_idx vx_size i acc =
     (case acc of Inl e \<Rightarrow> Inl e
      | Inr b' \<Rightarrow> bitmap_copy b' (start_idx + i * vx_size) start_idx vx_size)"

definition lane_ok :: "int \<Rightarrow> nat \<Rightarrow> nat \<Rightarrow> bool" where
  "lane_ok e k j = (\<forall>i<k. \<not> int (s_primes ! i) dvd 6 * int j + e)"

definition wheel_inv :: "nat \<Rightarrow> nat \<Rightarrow> BITMAP \<Rightarrow> BITMAP \<Rightarrow> bool" where
  "wheel_inv k cs x5 x7 =
     ((\<forall>j. bit_at x5 j = (1 \<le> j \<and> j \<le> cs \<and> lane_ok (- 1) k j))
      \<and> (\<forall>j. bit_at x7 j = (1 \<le> j \<and> j \<le> cs \<and> lane_ok 1 k j)))"

definition all_clear :: "BITMAP \<Rightarrow> bool" where
  "all_clear b = (\<forall>j. \<not> bit_at b j)"

definition is_prime :: "nat \<Rightarrow> bool" where
  "is_prime n = (1 < n \<and> (\<forall>d. d dvd n \<longrightarrow> d = 1 \<or> d = n))"

definition dup_pattern :: "BITMAP \<Rightarrow> nat \<Rightarrow> nat \<Rightarrow> nat \<Rightarrow> bool" where
  "dup_pattern b cs p j =
     (if 1 + cs \<le> j \<and> j < 1 + cs * p then bit_at b (1 + (j - 1) mod cs) else bit_at b j)"

definition struck :: "nat \<Rightarrow> nat \<Rightarrow> nat \<Rightarrow> nat \<Rightarrow> bool" where
  "struck p st limit j = (st \<le> j \<and> j \<le> limit \<and> (j - st) mod p = 0)"






fun gap_list :: "int \<Rightarrow> int list \<Rightarrow> int list" where
  "gap_list l [] = []"
| "gap_list l (v # vs) = (v - l) # gap_list v vs"

definition vx6_lane ::
  "(int \<Rightarrow> int \<Rightarrow> bool) \<Rightarrow> bool \<Rightarrow> int \<Rightarrow> int \<Rightarrow> int \<times> int \<Rightarrow> fault + VX_OBJ \<times> int \<Rightarrow> fault + VX_OBJ \<times> int" where
  "vx6_lane pt is_large_limit p_test_rounds yvx c acc =
     thn acc (\<lambda>(obj, gap).
       if snd c < 0 then vx6_walk_x5 pt is_large_limit p_test_rounds yvx (fst c) (obj, gap + 4)
       else vx6_walk_x7 pt is_large_limit p_test_rounds yvx (fst c) (obj, gap + 2))"



section \<open>Properties of the lane arithmetic\<close>

lemma unat_xp0:
  assumes "unat (p::u64) < 2 ^ 64 - 1"
  shows "unat ((p + 1) div 6) = (unat p + 1) div 6"
proof -
  have "unat (p + 1) = unat p + 1"
    using assms by (simp add: unat_add_lem [THEN iffD1])
  then show ?thesis by (simp add: unat_div)
qed

lemma normalized_xp_cases:
  assumes "5 \<le> unat (p::u64)" and "unat p < 2 ^ 64 - 1"
  shows "unat (normalized_xp lane p) = (unat p + 1) div 6
       \<or> unat (normalized_xp lane p) = unat p - (unat p + 1) div 6"
proof -
  have x: "unat ((p + 1) div 6) = (unat p + 1) div 6"
    using assms(2) by (rule unat_xp0)
  have "(unat p + 1) div 6 \<le> unat p" by simp
  then have "(p + 1) div 6 \<le> p"
    by (simp add: word_le_nat_alt x)
  then have "unat (p - (p + 1) div 6) = unat p - (unat p + 1) div 6"
    by (simp add: unat_sub x)
  with x show ?thesis
    by (auto simp: normalized_xp_def Let_def)
qed

lemma normalized_xp_range:
  assumes "5 \<le> unat (p::u64)" and "unat p < 2 ^ 64 - 1"
  shows "0 < unat (normalized_xp lane p) \<and> unat (normalized_xp lane p) < unat p"
  using normalized_xp_cases [OF assms, of lane] assms(1) by auto

lemma mod_solve_nat:
  fixes P X V :: nat
  assumes "X < P" and "X \<le> V"
  shows "(P - (V - X) mod P + V) mod P = X"
proof -
  have r: "(V - X) mod P < P" using assms by simp
  have le: "(V - X) mod P \<le> V - X" by (rule mod_less_eq_dividend)
  have "P - (V - X) mod P + V = X + (P + ((V - X) - (V - X) mod P))"
    using r le assms(2) by arith
  also have "\<dots> mod P = (X + ((V - X) - (V - X) mod P)) mod P"
    by (metis add.assoc add.commute mod_add_self1)
  also have "\<dots> = X mod P"
    by (metis minus_mod_eq_mult_div mod_mult_self2 mult.commute mod_mult_self1)
  finally show ?thesis using assms(1) by simp
qed

text \<open>
  C2 (the code at a failing input).  At \<open>y = 0\<close> the product \<open>vx * y = 0\<close> is below
  \<open>x_p\<close>, the case the claim names.  For \<open>p = 23\<close> on the lane \<open>+1\<close>
  (\<open>x_p = normalized_xp 1 23 = 19\<close>) and \<open>vx = 1616615\<close> the unsigned difference
  \<open>vx * y - x_p\<close> wraps around to \<open>2 ^ 64 - 19\<close>, whose remainder modulo \<open>23\<close> is
  \<open>10\<close> and not \<open>4\<close>: the function returns \<open>13\<close>, and \<open>(13 + vx * y) mod 23 = 13\<close> is
  not \<open>19\<close>.  The arbitrary-precision version of the same function returns \<open>19\<close>,
  the value the comment above both functions asks for.
\<close>

theorem solve_for_x_wraps:
  "solve_for_x 1 23 1616615 0 = Inr 13
   \<and> unat (normalized_xp 1 23) = 19
   \<and> (13 + 1616615 * 0) mod 23 \<noteq> (19::nat)
   \<and> solve_for_x_gmp 1 23 1616615 0 = Inr 19
   \<and> (19 + 1616615 * 0) mod 23 = (19::nat)"
  by (simp add: solve_for_x_def solve_for_x_gmp_def normalized_xp_def)

text \<open>
  Away from the wrap-around the function is right: for every lane and every \<open>p\<close> with
  \<open>5 \<le> p < 2 ^ 64 - 1\<close>, and every \<open>vx\<close>, \<open>y\<close> whose product does not overflow 64 bits
  and is at least \<open>normalized_xp lane p\<close>, the value \<open>x\<close> returned by \<open>solve_for_x\<close>
  satisfies \<open>0 < x \<le> p\<close> and \<open>(x + vx * y) mod p = normalized_xp lane p\<close>.
\<close>

lemma solve_for_x_congruence:
  assumes p5: "5 \<le> unat p" and pmax: "unat p < 2 ^ 64 - 1"
    and nov: "unat vx * unat y < 2 ^ 64"
    and ge: "unat (normalized_xp lane p) \<le> unat vx * unat y"
  shows "\<exists>x. solve_for_x lane p vx y = Inr x \<and> 0 < unat x \<and> unat x \<le> unat p
           \<and> (unat x + unat vx * unat y) mod unat p = unat (normalized_xp lane p)"
proof -
  let ?xp = "normalized_xp lane p"
  let ?x = "p - (vx * y - ?xp) mod p"
  have pne: "p \<noteq> 0" using p5 by auto
  have V: "unat (vx * y) = unat vx * unat y"
    using nov by (simp add: unat_mult_lem [THEN iffD1])
  have le: "?xp \<le> vx * y" using ge by (simp add: word_le_nat_alt V)
  have D: "unat (vx * y - ?xp) = unat vx * unat y - unat ?xp"
    using le by (simp add: unat_sub V)
  have R: "unat ((vx * y - ?xp) mod p) = (unat vx * unat y - unat ?xp) mod unat p"
    by (simp add: unat_mod D)
  have rl: "(unat vx * unat y - unat ?xp) mod unat p < unat p"
    using p5 by simp
  then have "(vx * y - ?xp) mod p \<le> p"
    by (simp add: word_le_nat_alt R)
  then have X: "unat ?x = unat p - (unat vx * unat y - unat ?xp) mod unat p"
    by (simp add: unat_sub R)
  have rng: "unat ?xp < unat p" using normalized_xp_range [OF p5 pmax] by simp
  have "(unat ?x + unat vx * unat y) mod unat p = unat ?xp"
    unfolding X using mod_solve_nat [OF rng ge] by simp
  moreover have "0 < unat ?x" "unat ?x \<le> unat p" using X rl by simp_all
  moreover have "solve_for_x lane p vx y = Inr ?x"
    using pne by (simp add: solve_for_x_def)
  ultimately show ?thesis by blast
qed

lemma solve_for_x_congruence_instance:
  "\<exists>x. solve_for_x 1 23 1616615 1 = Inr x \<and> 0 < unat x \<and> unat x \<le> unat (23 :: u64)
       \<and> (unat x + unat (1616615 :: u64) * unat (1 :: u64)) mod unat (23 :: u64)
           = unat (normalized_xp 1 23)"
proof -
  have n: "normalized_xp 1 23 = 19" by (simp add: normalized_xp_def)
  show ?thesis
    by (rule solve_for_x_congruence) (simp_all add: n)
qed

text \<open>
  C3 (as stated, refuted).  \<open>normalized_xp 1 23\<close> is \<open>19\<close>, not \<open>4\<close>, and
  \<open>solve_for_x 1 23 1616615 0\<close> is \<open>13\<close>.
\<close>

theorem seed_S4_counterexample:
  "\<not> (solve_for_x 1 23 1616615 0 = Inr 4 \<and> normalized_xp 1 23 = 4)"
  by (simp add: solve_for_x_def normalized_xp_def)

text \<open>
  C3 (amended).  \<open>23 = 6 * 4 - 1\<close> lies on the lane \<open>-1\<close>: \<open>normalized_xp (- 1) 23 = 4\<close>
  and \<open>normalized_xp 1 23 = 23 - 4 = 19\<close>; at \<open>y = 0\<close> the arbitrary-precision solver
  returns that value, \<open>solve_for_x_gmp 1 23 1616615 0 = 19\<close>.
\<close>

theorem seed_S4_amended:
  "normalized_xp (- 1) 23 = 4 \<and> normalized_xp 1 23 = 19
   \<and> solve_for_x_gmp 1 23 1616615 0 = Inr 19"
  by (simp add: solve_for_x_gmp_def normalized_xp_def)

text \<open>
  C8 (the code at a failing input).  For \<open>p = 23\<close>, \<open>vx = 35\<close>, \<open>x = 5\<close> on the lane
  \<open>-1\<close> (\<open>x_p = 4\<close>) the unsigned difference \<open>x_p - x\<close> wraps around to \<open>2 ^ 64 - 1\<close>,
  \<open>delta\<close> becomes \<open>5\<close> instead of \<open>22\<close>, and the function returns \<open>10\<close>, which
  does not solve the congruence; the only solution below \<open>23\<close> is \<open>21\<close>.
\<close>

theorem solve_for_y_wraps:
  "solve_for_y (- 1) 23 35 5 = Inr 10
   \<and> unat (normalized_xp (- 1) 23) = 4
   \<and> (5 + 35 * 10) mod 23 \<noteq> (4::nat)
   \<and> filter (\<lambda>y. (5 + 35 * y) mod 23 = (4::nat)) [0..<23] = [21]"
proof -
  have inv: "modular_inverse 35 23 = Inr 2"
    by (simp add: modular_inverse_def signed_modulo_int_def signed_divide_int_def)
  have n: "normalized_xp (- 1) 23 = 4" by (simp add: normalized_xp_def)
  have s: "solve_for_y (- 1) 23 35 5 = Inr 10"
    by (simp add: solve_for_y_def n inv)
  have m: "filter (\<lambda>y. (5 + 35 * y) mod 23 = (4::nat)) [0..<23] = [21]"
    by code_simp
  show ?thesis using s n m by simp
qed

section \<open>Bit-level behaviour of the bitmap operations\<close>

lemma bit_at_iff:
  "bit_at b i = (i div 8 < length (b_data b) \<and> bit (b_data b ! (i div 8)) (i mod 8))"
  by (simp add: bit_at_def bitmap_get_bit_def push_bit_of_1 and_exp_eq_0_iff_not_bit)

lemma same_shape_refl [simp]: "same_shape b b"
  by (simp add: same_shape_def)

lemma same_shape_trans: "same_shape c b' \<Longrightarrow> same_shape b' b \<Longrightarrow> same_shape c b"
  by (simp add: same_shape_def)

lemma div_mod_8_eq: "(j::nat) div 8 = i div 8 \<Longrightarrow> j mod 8 = i mod 8 \<Longrightarrow> j = i"
  by (metis div_mult_mod_eq)

lemma get_bit_bit_at:
  "i div 8 < length (b_data b) \<Longrightarrow> bitmap_get_bit b i = Inr (bit_at b i)"
  by (simp add: bitmap_get_bit_def bit_at_iff push_bit_of_1 and_exp_eq_0_iff_not_bit)

lemma set_bit_ok:
  assumes "i div 8 < length (b_data b)"
  shows "\<exists>b'. bitmap_set_bit b i = Inr b' \<and> same_shape b' b
              \<and> (\<forall>j. bit_at b' j = (j = i \<or> bit_at b j))"
proof -
  let ?b' = "b\<lparr>b_data := (b_data b)[i div 8 := (b_data b ! (i div 8)) OR push_bit (i mod 8) 1]\<rparr>"
  have "bit_at ?b' j = (j = i \<or> bit_at b j)" for j
  proof (cases "j div 8 = i div 8")
    case True
    have "(j mod 8 = i mod 8) = (j = i)" using True div_mod_8_eq by blast
    then show ?thesis using True assms
      by (auto simp: bit_at_iff bit_or_iff bit_push_bit_iff bit_1_iff bit_exp_iff)
  next
    case False
    then have "j \<noteq> i" by auto
    then show ?thesis using False by (simp add: bit_at_iff)
  qed
  then show ?thesis using assms by (auto simp: bitmap_set_bit_def same_shape_def)
qed

lemma clear_bit_ok:
  assumes "i div 8 < length (b_data b)"
  shows "\<exists>b'. bitmap_clear_bit b i = Inr b' \<and> same_shape b' b
              \<and> (\<forall>j. bit_at b' j = (j \<noteq> i \<and> bit_at b j))"
proof -
  let ?b' = "b\<lparr>b_data := (b_data b)[i div 8 := (b_data b ! (i div 8)) AND NOT (push_bit (i mod 8) 1)]\<rparr>"
  have "bit_at ?b' j = (j \<noteq> i \<and> bit_at b j)" for j
  proof (cases "j div 8 = i div 8")
    case True
    have "(j mod 8 = i mod 8) = (j = i)" using True div_mod_8_eq by blast
    then show ?thesis using True assms
      by (auto simp: bit_at_iff bit_and_iff bit_not_iff bit_push_bit_iff bit_1_iff bit_exp_iff)
  next
    case False
    then have "j \<noteq> i" by auto
    then show ?thesis using False by (simp add: bit_at_iff)
  qed
  then show ?thesis using assms by (auto simp: bitmap_clear_bit_def same_shape_def)
qed

lemma clear_mod_p_ok:
  assumes "0 < p" and "limit div 8 < length (b_data b)"
  shows "\<exists>b'. bitmap_clear_mod_p b p start limit = Inr b' \<and> same_shape b' b
              \<and> (\<forall>j. bit_at b' j = (bit_at b j \<and> \<not> (start \<le> j \<and> j \<le> limit \<and> (j - start) mod p = 0)))"
  using assms
proof (induction b p start limit rule: bitmap_clear_mod_p.induct)
  case (1 b p idx limit)
  show ?case
  proof (cases "idx \<le> limit")
    case False
    then show ?thesis
      by (subst bitmap_clear_mod_p.simps) auto
  next
    case True
    then have "idx div 8 \<le> limit div 8" by (simp add: div_le_mono)
    then have r: "idx div 8 < length (b_data b)" using "1.prems" by simp
    from clear_bit_ok [OF r] obtain b1 where
      b1: "bitmap_clear_bit b idx = Inr b1" "same_shape b1 b"
          "\<forall>j. bit_at b1 j = (j \<noteq> idx \<and> bit_at b j)" by blast
    have l1: "limit div 8 < length (b_data b1)"
      using b1(2) "1.prems" by (simp add: same_shape_def)
    from "1.IH" [OF True b1(1) _ "1.prems"(1) l1] "1.prems"(1)
    obtain b' where
      b': "bitmap_clear_mod_p b1 p (idx + p) limit = Inr b'" "same_shape b' b1"
          "\<forall>j. bit_at b' j = (bit_at b1 j \<and> \<not> (idx + p \<le> j \<and> j \<le> limit \<and> (j - (idx + p)) mod p = 0))"
      by auto
    have eq: "bitmap_clear_mod_p b p idx limit = Inr b'"
      using True b1(1) b'(1) "1.prems"(1)
      by (subst bitmap_clear_mod_p.simps) simp
    have "(j \<noteq> idx \<and> \<not> (idx + p \<le> j \<and> j \<le> limit \<and> (j - (idx + p)) mod p = 0))
          = (\<not> (idx \<le> j \<and> j \<le> limit \<and> (j - idx) mod p = 0))" for j
    proof (cases "idx + p \<le> j")
      case True
      then have "(j - idx) mod p = (j - (idx + p)) mod p"
        by (metis add.commute diff_diff_left le_add_diff_inverse2 add_le_imp_le_diff mod_add_self2 add_leE)
      then show ?thesis using True \<open>0 < p\<close> by auto
    next
      case False
      then have "idx \<le> j \<Longrightarrow> j \<noteq> idx \<Longrightarrow> (j - idx) mod p \<noteq> 0"
        using \<open>0 < p\<close> by (simp add: mod_less)
      then show ?thesis using False \<open>idx \<le> limit\<close> by auto
    qed
    then have "\<forall>j. bit_at b' j = (bit_at b j \<and> \<not> (idx \<le> j \<and> j \<le> limit \<and> (j - idx) mod p = 0))"
      using b1(3) b'(3) by auto
    then show ?thesis using eq same_shape_trans [OF b'(2) b1(2)] by blast
  qed
qed

lemma copy_ok:
  assumes "src_idx + len \<le> dest_idx" and "dest_idx + len \<le> 8 * length (b_data b)"
  shows "\<exists>b'. bitmap_copy b dest_idx src_idx len = Inr b' \<and> same_shape b' b
              \<and> (\<forall>j. bit_at b' j = (if dest_idx \<le> j \<and> j < dest_idx + len
                                      then bit_at b (src_idx + (j - dest_idx)) else bit_at b j))"
  using assms
proof (induction len)
  case 0
  then show ?case by (auto simp: bitmap_copy_def)
next
  case (Suc n)
  from Suc obtain b1 where
    b1: "bitmap_copy b dest_idx src_idx n = Inr b1" "same_shape b1 b"
        "\<forall>j. bit_at b1 j = (if dest_idx \<le> j \<and> j < dest_idx + n
                              then bit_at b (src_idx + (j - dest_idx)) else bit_at b j)"
    by force
  have len1: "length (b_data b1) = length (b_data b)" using b1(2) by (simp add: same_shape_def)
  have rs: "(src_idx + n) div 8 < length (b_data b1)"
    using Suc.prems len1 by (simp add: div_less_iff_less_mult)
  have rd: "(dest_idx + n) div 8 < length (b_data b1)"
    using Suc.prems len1 by (simp add: div_less_iff_less_mult)
  have src: "bit_at b1 (src_idx + n) = bit_at b (src_idx + n)"
    using b1(3) Suc.prems(1) by simp
  have step: "bitmap_copy b dest_idx src_idx (Suc n)
              = (if bit_at b (src_idx + n) then bitmap_set_bit b1 (dest_idx + n)
                 else bitmap_clear_bit b1 (dest_idx + n))"
    using b1(1) by (simp add: bitmap_copy_def bitmap_copy_bit_def get_bit_bit_at [OF rs] src)
  show ?case
  proof (cases "bit_at b (src_idx + n)")
    case True
    from set_bit_ok [OF rd] obtain b' where
      b': "bitmap_set_bit b1 (dest_idx + n) = Inr b'" "same_shape b' b1"
          "\<forall>j. bit_at b' j = (j = dest_idx + n \<or> bit_at b1 j)" by blast
    have "\<forall>j. bit_at b' j = (if dest_idx \<le> j \<and> j < dest_idx + Suc n
                              then bit_at b (src_idx + (j - dest_idx)) else bit_at b j)"
      using b'(3) b1(3) True by (auto simp: less_Suc_eq)
    then show ?thesis using step True b'(1) same_shape_trans [OF b'(2) b1(2)] by auto
  next
    case False
    from clear_bit_ok [OF rd] obtain b' where
      b': "bitmap_clear_bit b1 (dest_idx + n) = Inr b'" "same_shape b' b1"
          "\<forall>j. bit_at b' j = (j \<noteq> dest_idx + n \<and> bit_at b1 j)" by blast
    have "\<forall>j. bit_at b' j = (if dest_idx \<le> j \<and> j < dest_idx + Suc n
                              then bit_at b (src_idx + (j - dest_idx)) else bit_at b j)"
      using b'(3) b1(3) False by (auto simp: less_Suc_eq)
    then show ?thesis using step False b'(1) same_shape_trans [OF b'(2) b1(2)] by auto
  qed
qed

lemma dup_fold_ok:
  assumes "0 < vx" and "start + vx * Suc k \<le> 8 * length (b_data b)"
  shows "\<exists>b'. fold (dup_body start vx) [1..<Suc k] (Inr b) = Inr b' \<and> same_shape b' b
              \<and> (\<forall>j. bit_at b' j = (if start + vx \<le> j \<and> j < start + vx * Suc k
                                      then bit_at b (start + (j - start) mod vx) else bit_at b j))"
  using assms
proof (induction k)
  case 0
  then show ?case by auto
next
  case (Suc k)
  have "start + vx * Suc k \<le> start + vx * Suc (Suc k)" by simp
  with Suc obtain b1 where
    b1: "fold (dup_body start vx) [1..<Suc k] (Inr b) = Inr b1" "same_shape b1 b"
        "\<forall>j. bit_at b1 j = (if start + vx \<le> j \<and> j < start + vx * Suc k
                              then bit_at b (start + (j - start) mod vx) else bit_at b j)"
    by (meson le_trans)
  have len1: "length (b_data b1) = length (b_data b)" using b1(2) by (simp add: same_shape_def)
  let ?d = "start + Suc k * vx"
  have c1: "start + vx \<le> ?d" by simp
  have c2: "?d + vx \<le> 8 * length (b_data b1)"
    using Suc.prems(2) len1 by (simp add: algebra_simps)
  from copy_ok [OF c1 c2] obtain b' where
    b': "bitmap_copy b1 ?d start vx = Inr b'" "same_shape b' b1"
        "\<forall>j. bit_at b' j = (if ?d \<le> j \<and> j < ?d + vx
                              then bit_at b1 (start + (j - ?d)) else bit_at b1 j)" by blast
  have f: "fold (dup_body start vx) [1..<Suc (Suc k)] (Inr b) = Inr b'"
    using b1(1) b'(1) by (simp add: dup_body_def)
  have "bit_at b' j = (if start + vx \<le> j \<and> j < start + vx * Suc (Suc k)
                        then bit_at b (start + (j - start) mod vx) else bit_at b j)" for j
  proof (cases "?d \<le> j \<and> j < ?d + vx")
    case True
    then have m: "(j - start) mod vx = j - ?d"
    proof -
      have "j - start = (j - ?d) + Suc k * vx" using True by simp
      moreover have "j - ?d < vx" using True by auto
      ultimately show ?thesis by (metis mod_less mod_mult_self1)
    qed
    have "bit_at b' j = bit_at b1 (start + (j - ?d))" using b'(3) True by simp
    also have "\<dots> = bit_at b (start + (j - ?d))"
    proof -
      have "start + (j - ?d) < start + vx" using True by auto
      then show ?thesis using b1(3) by simp
    qed
    finally show ?thesis using True m by (simp add: algebra_simps)
  next
    case False
    have "bit_at b' j = bit_at b1 j"
      using b'(3) [rule_format, of j] by (simp only: False if_False)
    moreover have "(start + vx \<le> j \<and> j < start + vx * Suc (Suc k))
                 = (start + vx \<le> j \<and> j < start + vx * Suc k)"
      using False by (auto simp: algebra_simps)
    ultimately show ?thesis by (simp only: b1(3) [rule_format, of j])
  qed
  then show ?case using f same_shape_trans [OF b'(2) b1(2)] by blast
qed

lemma duplicate_segment_ok:
  assumes "0 < vx" and "0 < y" and "start + vx * y \<le> b_size b"
    and "b_size b \<le> 8 * length (b_data b)"
  shows "\<exists>b'. bitmap_duplicate_segment b start vx y = Inr b' \<and> same_shape b' b
              \<and> (\<forall>j. bit_at b' j = (if start + vx \<le> j \<and> j < start + vx * y
                                      then bit_at b (start + (j - start) mod vx) else bit_at b j))"
proof -
  obtain k where k: "y = Suc k" using assms(2) by (cases y) auto
  have "start + vx * Suc k \<le> 8 * length (b_data b)" using assms(3,4) k by simp
  from dup_fold_ok [OF assms(1) this] obtain b' where
    b': "fold (dup_body start vx) [1..<Suc k] (Inr b) = Inr b'" "same_shape b' b"
        "\<forall>j. bit_at b' j = (if start + vx \<le> j \<and> j < start + vx * Suc k
                              then bit_at b (start + (j - start) mod vx) else bit_at b j)" by blast
  have "dup_body start vx = (\<lambda>i acc. case acc of Inl e \<Rightarrow> Inl e
          | Inr b' \<Rightarrow> bitmap_copy b' (start + i * vx) start vx)"
    by (simp add: dup_body_def fun_eq_iff)
  then have "bitmap_duplicate_segment b start vx y = Inr b'"
    using b'(1) assms(3) k by (simp add: bitmap_duplicate_segment_def)
  then show ?thesis using b'(2,3) k by blast
qed

section \<open>The wheel\<close>

lemma s_primes_length: "length s_primes = 23"
  by (simp add: s_primes_def)

lemma s_primes_sorted: "sorted_wrt (<) s_primes"
  by (simp add: s_primes_def)

lemma s_primes_lane: "list_all (\<lambda>p. p mod 6 = 1 \<or> p mod 6 = 5) s_primes"
  by (simp add: s_primes_def)

lemma s_primes_small_factor_list:
  "list_all (\<lambda>m. 2 dvd m \<or> 3 dvd m \<or> list_ex (\<lambda>q. q dvd m) s_primes) [2..<98]"
  by code_simp

lemma s_primes_coprime_list:
  "list_all (\<lambda>p. list_all (\<lambda>q. p = q \<or> coprime p q) s_primes) s_primes"
  by code_simp

lemma s_primes_bound: "list_all (\<lambda>p. 5 \<le> p \<and> p < 98) s_primes"
  by (simp add: s_primes_def)

lemma lane_ok_Suc: "lane_ok e (Suc k) j = (lane_ok e k j \<and> \<not> int (s_primes ! k) dvd 6 * int j + e)"
  by (auto simp: lane_ok_def less_Suc_eq)

lemma s_primes_nth_lane: "i < length s_primes \<Longrightarrow> s_primes ! i mod 6 = 1 \<or> s_primes ! i mod 6 = 5"
  using s_primes_lane by (simp add: list_all_length)

lemma s_primes_nth_bound: "i < length s_primes \<Longrightarrow> 5 \<le> s_primes ! i \<and> s_primes ! i < 98"
  using s_primes_bound by (simp add: list_all_length)

lemma s_primes_nth_coprime:
  assumes "i < k" and "k < length s_primes"
  shows "coprime (s_primes ! i) (s_primes ! k)"
proof -
  have "s_primes ! i < s_primes ! k"
    using assms s_primes_sorted by (simp add: sorted_wrt_nth_less)
  moreover have "s_primes ! i = s_primes ! k \<or> coprime (s_primes ! i) (s_primes ! k)"
    using s_primes_coprime_list assms by (simp add: list_all_length)
  ultimately show ?thesis by auto
qed

lemma s_primes_small_factor:
  assumes k: "k < length s_primes" and m: "1 < m" "m < s_primes ! k" "\<not> 2 dvd m" "\<not> 3 dvd m"
  shows "\<exists>i<k. s_primes ! i dvd m"
proof -
  have "m < 98" using s_primes_nth_bound [OF k] m(2) by simp
  then have "m \<in> {2..<98}" using m(1) by simp
  then have "m \<in> set [2..<98]" by (simp only: set_upt)
  then have "2 dvd m \<or> 3 dvd m \<or> list_ex (\<lambda>q. q dvd m) s_primes"
    using s_primes_small_factor_list unfolding list_all_iff by blast
  then obtain q where q: "q \<in> set s_primes" "q dvd m"
    using m(3,4) by (auto simp: list_ex_iff)
  then obtain i where i: "i < length s_primes" "s_primes ! i = q"
    by (auto simp: in_set_conv_nth)
  have "q \<le> m" using q(2) m(1) by (simp add: dvd_imp_le)
  then have lt: "s_primes ! i < s_primes ! k" using i(2) m(2) by simp
  have "i < k"
  proof (rule ccontr)
    assume "\<not> i < k"
    then have "k = i \<or> k < i" by auto
    then have "s_primes ! k \<le> s_primes ! i"
      using s_primes_sorted i(1) by (auto simp: sorted_wrt_nth_less less_imp_le)
    with lt show False by simp
  qed
  with i(2) q(2) show ?thesis by blast
qed

lemma lane_shift:
  fixes p j s e :: int
  assumes "coprime p 6" and "p dvd 6 * s + e"
  shows "p dvd 6 * j + e \<longleftrightarrow> p dvd j - s"
proof -
  have eq: "6 * j + e = 6 * (j - s) + (6 * s + e)" by (simp add: algebra_simps)
  have "p dvd 6 * j + e \<longleftrightarrow> p dvd 6 * (j - s)"
    unfolding eq using dvd_add_left_iff [OF assms(2)] by blast
  also have "\<dots> \<longleftrightarrow> p dvd j - s"
    using assms(1) by (rule coprime_dvd_mult_right_iff)
  finally show ?thesis .
qed

lemma cleared_iff:
  fixes p s j :: nat
  shows "(s \<le> j \<and> (j - s) mod p = 0) = (s \<le> j \<and> int p dvd int j - int s)"
proof (cases "s \<le> j")
  case True
  then have "int j - int s = int (j - s)" by simp
  then have "(int p dvd int j - int s) = (p dvd j - s)"
    by (simp only: int_dvd_int_iff)
  then show ?thesis using True by (simp add: mod_eq_0_iff_dvd)
next
  case False
  then show ?thesis by simp
qed

lemma coprime_6_of_lane:
  fixes p :: nat
  assumes "p mod 6 = 1 \<or> p mod 6 = 5"
  shows "coprime (int p) 6"
proof -
  have c1: "coprime (1::nat) 6" by simp
  have c5: "coprime (5::nat) 6" by code_simp
  have "coprime p 6 \<longleftrightarrow> coprime (p mod 6) 6"
    by (rule coprime_mod_left_iff [symmetric]) simp
  then have "coprime p 6" using assms c1 c5 by (elim disjE) (simp_all only:)
  then show ?thesis by (metis coprime_int_iff of_nat_numeral)
qed

text \<open>The progression that starts at the prime's own index.\<close>

lemma start_own:
  fixes p x j :: nat and e :: int
  assumes cop: "coprime (int p) 6" and own: "6 * int x + e = int p" and xp: "x < p"
  shows "(int p dvd 6 * int j + e) = (x \<le> j \<and> (j - x) mod p = 0)"
proof -
  have d: "int p dvd 6 * int x + e" using own by simp
  have sh: "(int p dvd 6 * int j + e) = (int p dvd int j - int x)"
    using lane_shift [OF cop d] .
  show ?thesis
  proof (cases "x \<le> j")
    case True
    then show ?thesis using sh cleared_iff [of x j p] by simp
  next
    case False
    then have pos: "0 < int x - int j" "int x - int j < int p" using xp by auto
    have "\<not> int p dvd int x - int j"
      using pos by (meson zdvd_not_zless)
    then have "\<not> int p dvd int j - int x"
      by (metis dvd_minus_iff minus_diff_eq)
    then show ?thesis using sh False by simp
  qed
qed

text \<open>The progression on the other lane, which starts at \<open>p * x - x\<close>.\<close>

lemma start_other:
  fixes p s j k :: nat and e :: int
  assumes k: "k < length s_primes" and p: "p = s_primes ! k"
    and e: "e = 1 \<or> e = - 1"
    and d: "int p dvd 6 * int s + e" and sq: "6 * int s + e \<le> int p * int p"
    and notown: "int p mod 6 \<noteq> e mod 6"
    and j1: "1 \<le> j" and ok: "lane_ok e k j"
  shows "(int p dvd 6 * int j + e) = (s \<le> j \<and> (j - s) mod p = 0)"
proof -
  have cop: "coprime (int p) 6"
    using s_primes_nth_lane [OF k] p coprime_6_of_lane by simp
  have p5: "5 \<le> p" using s_primes_nth_bound [OF k] p by simp
  have sh: "(int p dvd 6 * int j + e) = (int p dvd int j - int s)"
    using lane_shift [OF cop d] .
  show ?thesis
  proof (cases "s \<le> j")
    case True
    then show ?thesis using sh cleared_iff [of s j p] by simp
  next
    case False
    have "\<not> int p dvd 6 * int j + e"
    proof
      assume dv: "int p dvd 6 * int j + e"
      then obtain m where m: "6 * int j + e = int p * m" ..
      have cpos: "0 < 6 * int j + e" using j1 e by auto
      have clt: "6 * int j + e < int p * int p" using False sq by auto
      have mpos: "0 < m" using cpos m p5
        by (metis mult_pos_pos not_less_iff_gr_or_eq of_nat_0_less_iff zero_less_mult_pos
            less_le_trans zero_less_numeral of_nat_0_le_iff mult_less_0_iff not_less)
      have mlt: "m < int p"
      proof (rule ccontr)
        assume "\<not> m < int p"
        then have "int p * int p \<le> int p * m" by (simp add: mult_left_mono)
        with clt m show False by simp
      qed
      have m1: "m \<noteq> 1"
      proof
        assume "m = 1"
        then have "int p = 6 * int j + e" using m by simp
        then have "int p mod 6 = e mod 6" by (simp add: mod_add_left_eq [symmetric])
        with notown show False by simp
      qed
      have m2: "\<not> 2 dvd m"
      proof
        assume "2 dvd m"
        then have "2 dvd 6 * int j + e" using m by simp
        then show False using e by presburger
      qed
      have m3: "\<not> 3 dvd m"
      proof
        assume "3 dvd m"
        then have "3 dvd 6 * int j + e" using m by simp
        then show False using e by presburger
      qed
      have "\<exists>i<k. s_primes ! i dvd nat m"
      proof (rule s_primes_small_factor [OF k])
        show "1 < nat m" using mpos m1 by simp
        show "nat m < s_primes ! k" using mlt p mpos by simp
        show "\<not> 2 dvd nat m" using m2 mpos by (simp add: int_dvd_int_iff [symmetric])
        show "\<not> 3 dvd nat m" using m3 mpos by (simp add: int_dvd_int_iff [symmetric])
      qed
      then obtain i where i: "i < k" "s_primes ! i dvd nat m" by blast
      then have "int (s_primes ! i) dvd m" using mpos by (simp add: int_dvd_int_iff [symmetric])
      then have "int (s_primes ! i) dvd 6 * int j + e" using m by simp
      with ok i(1) show False by (simp add: lane_ok_def)
    qed
    then show ?thesis using False by simp
  qed
qed

lemma prod_list_pos_nat: "0 \<notin> set xs \<Longrightarrow> 0 < prod_list (xs :: nat list)"
  by (induction xs) auto

lemma s_primes_take_pos: "0 < prod_list (take k s_primes)"
proof -
  have "0 \<notin> set s_primes" by (simp add: s_primes_def)
  then have "0 \<notin> set (take k s_primes)" by (meson in_set_takeD)
  then show ?thesis by (rule prod_list_pos_nat)
qed

lemma s_primes_take_dvd:
  assumes "i < k" and "k \<le> length s_primes"
  shows "s_primes ! i dvd prod_list (take k s_primes)"
proof -
  have "take k s_primes ! i = s_primes ! i" using assms by simp
  moreover have "i < length (take k s_primes)" using assms by simp
  ultimately have "s_primes ! i \<in> set (take k s_primes)" by (metis nth_mem)
  then show ?thesis by (rule prod_list_dvd)
qed

lemma s_primes_take_Suc:
  assumes "k < length s_primes"
  shows "prod_list (take (Suc k) s_primes) = prod_list (take k s_primes) * s_primes ! k"
  using assms by (simp add: take_Suc_conv_app_nth)

lemma lane_ok_periodic:
  assumes k: "k \<le> length s_primes" and cs: "cs = prod_list (take k s_primes)" and j: "1 \<le> j"
  shows "lane_ok e k (1 + (j - 1) mod cs) = lane_ok e k j"
proof -
  let ?j' = "1 + (j - 1) mod cs"
  let ?t = "(j - 1) div cs"
  have "j - 1 = (j - 1) mod cs + cs * ?t" by simp
  then have "j = ?j' + cs * ?t" using j by linarith
  then have "int j = int ?j' + int cs * int ?t"
    by (metis of_nat_add of_nat_mult)
  then have eq: "6 * int j + e = (6 * int ?j' + e) + int cs * (6 * int ?t)"
    by (simp add: algebra_simps)
  have "(int (s_primes ! i) dvd 6 * int ?j' + e) = (int (s_primes ! i) dvd 6 * int j + e)"
    if "i < k" for i
  proof -
    have "s_primes ! i dvd cs" using s_primes_take_dvd [OF that k] cs by simp
    then have "int (s_primes ! i) dvd int cs"
      by (simp only: int_dvd_int_iff)
    then have "int (s_primes ! i) dvd int cs * (6 * int ?t)"
      by (rule dvd_mult2)
    then show ?thesis unfolding eq by (simp only: dvd_add_left_iff)
  qed
  then show ?thesis by (simp add: lane_ok_def)
qed

lemma lane_dup:
  assumes k: "k < length s_primes" and p: "p = s_primes ! k"
    and cs: "cs = prod_list (take k s_primes)"
    and inv: "\<forall>j. bit_at b j = (1 \<le> j \<and> j \<le> cs \<and> lane_ok e k j)"
    and sz: "cs * p + 2 \<le> b_size b" and ln: "b_size b \<le> 8 * length (b_data b)"
  shows "\<exists>b1. bitmap_duplicate_segment b 1 cs p = Inr b1 \<and> same_shape b1 b
           \<and> (\<forall>j. bit_at b1 j = (1 \<le> j \<and> j \<le> cs * p \<and> lane_ok e k j))"
proof -
  have cspos: "0 < cs" using cs s_primes_take_pos by simp
  have p5: "5 \<le> p" using s_primes_nth_bound [OF k] p by simp
  then have ppos: "0 < p" by simp
  have d1: "1 + cs * p \<le> b_size b" using sz by simp
  from duplicate_segment_ok [OF cspos ppos d1 ln] obtain b1 where
    b1c: "bitmap_duplicate_segment b 1 cs p = Inr b1 \<and> same_shape b1 b
        \<and> (\<forall>j. bit_at b1 j = (if 1 + cs \<le> j \<and> j < 1 + cs * p
                              then bit_at b (1 + (j - 1) mod cs) else bit_at b j))" ..
  note b1 = conjunct1 [OF b1c] conjunct1 [OF conjunct2 [OF b1c]] conjunct2 [OF conjunct2 [OF b1c]]
  have D: "bit_at b1 j = (1 \<le> j \<and> j \<le> cs * p \<and> lane_ok e k j)" for j
  proof (cases "1 + cs \<le> j \<and> j < 1 + cs * p")
    case True
    then have j1: "1 \<le> j" by simp
    have "(j - 1) mod cs < cs" using cspos by simp
    then have r: "1 \<le> 1 + (j - 1) mod cs \<and> 1 + (j - 1) mod cs \<le> cs" by simp
    have "bit_at b1 j = bit_at b (1 + (j - 1) mod cs)"
      using b1(3) [rule_format, of j] by (simp only: True if_True simp_thms)
    also have "\<dots> = lane_ok e k (1 + (j - 1) mod cs)"
      using inv [rule_format, of "1 + (j - 1) mod cs"] r by blast
    also have "\<dots> = lane_ok e k j"
      using lane_ok_periodic [OF less_imp_le [OF k] cs j1] .
    finally show ?thesis using True j1 by simp
  next
    case False
    have cle: "cs \<le> cs * p" using ppos by simp
    have "bit_at b1 j = bit_at b j" using b1(3) [rule_format, of j] by (simp only: False if_False)
    also have "\<dots> = (1 \<le> j \<and> j \<le> cs \<and> lane_ok e k j)" using inv by blast
    also have "\<dots> = (1 \<le> j \<and> j \<le> cs * p \<and> lane_ok e k j)"
    proof -
      have "j \<le> cs \<Longrightarrow> j \<le> cs * p" using cle by (rule le_trans [rotated])
      moreover have "j \<le> cs * p \<Longrightarrow> j \<le> cs"
      proof -
        assume a: "j \<le> cs * p"
        then have "j < 1 + cs * p" by simp
        with False have "\<not> 1 + cs \<le> j" by blast
        then show "j \<le> cs" by simp
      qed
      ultimately show ?thesis by blast
    qed
    finally show ?thesis .
  qed
  show ?thesis using b1(1,2) D by blast
qed

lemma lane_clear_bits:
  assumes p: "p = s_primes ! k"
    and D: "\<forall>j. bit_at b1 j = (1 \<le> j \<and> j \<le> n \<and> lane_ok e k j)"
    and b2: "\<forall>j. bit_at b2 j = (bit_at b1 j \<and> \<not> (st \<le> j \<and> j \<le> n + 1 \<and> (j - st) mod p = 0))"
    and start: "\<And>j. 1 \<le> j \<Longrightarrow> lane_ok e k j
                  \<Longrightarrow> (int p dvd 6 * int j + e) = (st \<le> j \<and> (j - st) mod p = 0)"
  shows "bit_at b2 j = (1 \<le> j \<and> j \<le> n \<and> lane_ok e (Suc k) j)"
proof (cases "1 \<le> j \<and> j \<le> n \<and> lane_ok e k j")
  case True
  have j1: "1 \<le> j" and jn: "j \<le> n" and ok: "lane_ok e k j" using True by blast+
  have stj: "(int p dvd 6 * int j + e) = (st \<le> j \<and> (j - st) mod p = 0)"
    using start [OF j1 ok] .
  have jl: "j \<le> n + 1" using jn by simp
  have b1j: "bit_at b1 j" using D [rule_format, of j] True by (simp only: simp_thms)
  have e2: "bit_at b2 j = (bit_at b1 j \<and> \<not> (st \<le> j \<and> j \<le> n + 1 \<and> (j - st) mod p = 0))"
    using b2 [rule_format, of j] .
  have "bit_at b2 j = (\<not> int p dvd 6 * int j + e)"
    unfolding e2 stj using b1j jl by (simp only: simp_thms)
  then show ?thesis unfolding lane_ok_Suc p using True by (simp only: simp_thms)
next
  case False
  have e2: "bit_at b2 j = (bit_at b1 j \<and> \<not> (st \<le> j \<and> j \<le> n + 1 \<and> (j - st) mod p = 0))"
    using b2 [rule_format, of j] .
  have nb: "\<not> bit_at b1 j" using D [rule_format, of j] False by (simp only: simp_thms)
  have n2: "\<not> bit_at b2 j" unfolding e2 using nb by (simp only: simp_thms)
  have "\<not> (1 \<le> j \<and> j \<le> n \<and> lane_ok e (Suc k) j)"
    unfolding lane_ok_Suc using False by blast
  with n2 show ?thesis by (simp only: simp_thms)
qed

lemma lane_clear:
  assumes k: "k < length s_primes" and p: "p = s_primes ! k"
    and D: "\<forall>j. bit_at b1 j = (1 \<le> j \<and> j \<le> n \<and> lane_ok e k j)"
    and ln: "n + 1 < 8 * length (b_data b1)"
    and start: "\<And>j. 1 \<le> j \<Longrightarrow> lane_ok e k j
                  \<Longrightarrow> (int p dvd 6 * int j + e) = (st \<le> j \<and> (j - st) mod p = 0)"
  shows "\<exists>b2. bitmap_clear_mod_p b1 p st (n + 1) = Inr b2 \<and> same_shape b2 b1
           \<and> (\<forall>j. bit_at b2 j = (1 \<le> j \<and> j \<le> n \<and> lane_ok e (Suc k) j))"
proof -
  have p5: "5 \<le> p" using s_primes_nth_bound [OF k] p by simp
  then have ppos: "0 < p" by simp
  have lim: "(n + 1) div 8 < length (b_data b1)"
    using ln by (simp add: div_less_iff_less_mult)
  have "\<exists>b2. bitmap_clear_mod_p b1 p st (n + 1) = Inr b2 \<and> same_shape b2 b1
        \<and> (\<forall>j. bit_at b2 j = (bit_at b1 j \<and> \<not> (st \<le> j \<and> j \<le> n + 1 \<and> (j - st) mod p = 0)))"
    by (rule clear_mod_p_ok [OF ppos lim])
  then obtain b2 where
    b2c: "bitmap_clear_mod_p b1 p st (n + 1) = Inr b2 \<and> same_shape b2 b1
        \<and> (\<forall>j. bit_at b2 j = (bit_at b1 j \<and> \<not> (st \<le> j \<and> j \<le> n + 1 \<and> (j - st) mod p = 0)))"
    ..
  note b2 = conjunct1 [OF b2c] conjunct1 [OF conjunct2 [OF b2c]] conjunct2 [OF conjunct2 [OF b2c]]
  have "\<forall>j. bit_at b2 j = (1 \<le> j \<and> j \<le> n \<and> lane_ok e (Suc k) j)"
    using lane_clear_bits [OF p D b2(3) start] by blast
  with b2(1,2) show ?thesis by blast
qed

lemma lane_step:
  assumes k: "k < length s_primes" and p: "p = s_primes ! k"
    and cs: "cs = prod_list (take k s_primes)"
    and inv: "\<forall>j. bit_at b j = (1 \<le> j \<and> j \<le> cs \<and> lane_ok e k j)"
    and sz: "cs * p + 2 \<le> b_size b" and ln: "b_size b \<le> 8 * length (b_data b)"
    and start: "\<And>j. 1 \<le> j \<Longrightarrow> lane_ok e k j
                  \<Longrightarrow> (int p dvd 6 * int j + e) = (st \<le> j \<and> (j - st) mod p = 0)"
  shows "\<exists>b1 b2. bitmap_duplicate_segment b 1 cs p = Inr b1
           \<and> bitmap_clear_mod_p b1 p st (cs * p + 1) = Inr b2
           \<and> same_shape b2 b
           \<and> (\<forall>j. bit_at b2 j = (1 \<le> j \<and> j \<le> cs * p \<and> lane_ok e (Suc k) j))"
proof -
  from lane_dup [OF k p cs inv sz ln] obtain b1 where
    b1c: "bitmap_duplicate_segment b 1 cs p = Inr b1 \<and> same_shape b1 b
           \<and> (\<forall>j. bit_at b1 j = (1 \<le> j \<and> j \<le> cs * p \<and> lane_ok e k j))" ..
  note b1 = conjunct1 [OF b1c] conjunct1 [OF conjunct2 [OF b1c]] conjunct2 [OF conjunct2 [OF b1c]]
  have "length (b_data b1) = length (b_data b)" "b_size b1 = b_size b"
    using b1(2) by (simp_all add: same_shape_def)
  then have l1: "cs * p + 1 < 8 * length (b_data b1)" using sz ln by simp
  from lane_clear [OF k p b1(3) l1 start] obtain b2 where
    b2c: "bitmap_clear_mod_p b1 p st (cs * p + 1) = Inr b2 \<and> same_shape b2 b1
           \<and> (\<forall>j. bit_at b2 j = (1 \<le> j \<and> j \<le> cs * p \<and> lane_ok e (Suc k) j))" by blast
  note b2 = conjunct1 [OF b2c] conjunct1 [OF conjunct2 [OF b2c]] conjunct2 [OF conjunct2 [OF b2c]]
  show ?thesis using b1(1) b2(1,3) same_shape_trans [OF b2(2) b1(2)] by blast
qed

lemma xp_lane5:
  fixes p :: nat
  assumes "p mod 6 = 5"
  shows "6 * int ((p + 1) div 6) + (- 1) = int p"
    and "6 * int (p * ((p + 1) div 6) - (p + 1) div 6) + 1 = int p * int p"
    and "(p + 1) div 6 < p"
proof -
  obtain q where q: "p = 6 * q + 5"
    using assms by (metis mod_mult_div_eq add.commute mult.commute mod_div_decomp)
  have x: "(p + 1) div 6 = q + 1" using q by simp
  show "6 * int ((p + 1) div 6) + (- 1) = int p" unfolding x using q by simp
  have "p * (q + 1) - (q + 1) = (6 * q + 4) * (q + 1)"
    using q by (simp add: algebra_simps)
  then have "int (p * (q + 1) - (q + 1)) = (6 * int q + 4) * (int q + 1)"
    by (simp add: algebra_simps)
  then show "6 * int (p * ((p + 1) div 6) - (p + 1) div 6) + 1 = int p * int p"
    unfolding x using q by (simp add: algebra_simps)
  show "(p + 1) div 6 < p" unfolding x using q by simp
qed

lemma xp_lane1:
  fixes p :: nat
  assumes "p mod 6 = 1" and "5 \<le> p"
  shows "6 * int ((p + 1) div 6) + 1 = int p"
    and "int p dvd 6 * int (p * ((p + 1) div 6) - (p + 1) div 6) + (- 1)"
    and "6 * int (p * ((p + 1) div 6) - (p + 1) div 6) + (- 1) \<le> int p * int p"
    and "(p + 1) div 6 < p"
proof -
  obtain q where q: "p = 6 * q + 1"
    using assms(1) by (metis mod_mult_div_eq add.commute mult.commute mod_div_decomp)
  have x: "(p + 1) div 6 = q" using q by simp
  show "6 * int ((p + 1) div 6) + 1 = int p" unfolding x using q by simp
  have "p * q - q = 6 * q * q" using q by (simp add: algebra_simps)
  then have s: "int (p * q - q) = 6 * int q * int q"
    by (metis of_nat_mult of_nat_numeral)
  have e: "6 * int (p * q - q) + (- 1) = int p * (int p - 2)"
    unfolding s using q by (simp add: algebra_simps)
  show "int p dvd 6 * int (p * ((p + 1) div 6) - (p + 1) div 6) + (- 1)"
    unfolding x e by simp
  have "int p * (int p - 2) \<le> int p * int p"
    by (rule mult_left_mono) simp_all
  then show "6 * int (p * ((p + 1) div 6) - (p + 1) div 6) + (- 1) \<le> int p * int p"
    unfolding x e .
  show "(p + 1) div 6 < p" unfolding x using q assms(2) by simp
qed

lemma iZm_step_ok:
  assumes k: "k < length s_primes" and p: "p = s_primes ! k"
    and cs: "cs = prod_list (take k s_primes)"
    and inv: "wheel_inv k cs x5 x7"
    and sz5: "cs * p + 2 \<le> b_size x5" and ln5: "b_size x5 \<le> 8 * length (b_data x5)"
    and sz7: "cs * p + 2 \<le> b_size x7" and ln7: "b_size x7 \<le> 8 * length (b_data x7)"
  shows "\<exists>y5 y7. iZm_step p cs x5 x7 = Inr (y5, y7) \<and> same_shape y5 x5 \<and> same_shape y7 x7
           \<and> wheel_inv (Suc k) (cs * p) y5 y7"
proof -
  let ?x = "(p + 1) div 6"
  have inv5: "\<forall>j. bit_at x5 j = (1 \<le> j \<and> j \<le> cs \<and> lane_ok (- 1) k j)"
    and inv7: "\<forall>j. bit_at x7 j = (1 \<le> j \<and> j \<le> cs \<and> lane_ok 1 k j)"
    using inv by (simp_all add: wheel_inv_def)
  have p5: "5 \<le> p" using s_primes_nth_bound [OF k] p by simp
  have lane: "p mod 6 = 1 \<or> p mod 6 = 5" using s_primes_nth_lane [OF k] p by simp
  have cop: "coprime (int p) 6" using lane by (rule coprime_6_of_lane)
  show ?thesis
  proof (cases "p mod 6 = 5")
    case True
    have br: "p mod 6 > 1" using True by simp
    have s5: "(int p dvd 6 * int j + (- 1)) = (?x \<le> j \<and> (j - ?x) mod p = 0)" for j
      by (rule start_own [OF cop xp_lane5(1) [OF True] xp_lane5(3) [OF True]])
    have d7: "int p dvd 6 * int (p * ?x - ?x) + 1"
      unfolding xp_lane5(2) [OF True] by simp
    have q7: "6 * int (p * ?x - ?x) + 1 \<le> int p * int p"
      unfolding xp_lane5(2) [OF True] by simp
    have n7: "int p mod 6 \<noteq> 1 mod 6"
    proof -
      have "int p mod 6 = int (p mod 6)" by (simp add: zmod_int)
      then show ?thesis using True by simp
    qed
    have s7: "(int p dvd 6 * int j + 1) = (p * ?x - ?x \<le> j \<and> (j - (p * ?x - ?x)) mod p = 0)"
      if "1 \<le> j" "lane_ok 1 k j" for j
      by (rule start_other [OF k p _ d7 q7 n7 that]) simp
    from lane_step [OF k p cs inv5 sz5 ln5 s5] obtain a5 y5 where
      c5: "bitmap_duplicate_segment x5 1 cs p = Inr a5
           \<and> bitmap_clear_mod_p a5 p ?x (cs * p + 1) = Inr y5
           \<and> same_shape y5 x5
           \<and> (\<forall>j. bit_at y5 j = (1 \<le> j \<and> j \<le> cs * p \<and> lane_ok (- 1) (Suc k) j))"
      by blast
    from lane_step [OF k p cs inv7 sz7 ln7 s7] obtain a7 y7 where
      c7: "bitmap_duplicate_segment x7 1 cs p = Inr a7
           \<and> bitmap_clear_mod_p a7 p (p * ?x - ?x) (cs * p + 1) = Inr y7
           \<and> same_shape y7 x7
           \<and> (\<forall>j. bit_at y7 j = (1 \<le> j \<and> j \<le> cs * p \<and> lane_ok 1 (Suc k) j))"
      by blast
    have "iZm_step p cs x5 x7 = Inr (y5, y7)"
      using c5 c7 br by (simp add: iZm_step_def Let_def)
    then show ?thesis using c5 c7 by (simp add: wheel_inv_def)
  next
    case False
    then have one: "p mod 6 = 1" using lane by simp
    have br: "\<not> p mod 6 > 1" using one by simp
    have s7: "(int p dvd 6 * int j + 1) = (?x \<le> j \<and> (j - ?x) mod p = 0)" for j
      by (rule start_own [OF cop xp_lane1(1) [OF one p5] xp_lane1(4) [OF one p5]])
    have n5: "int p mod 6 \<noteq> (- 1) mod 6"
    proof -
      have "int p mod 6 = int (p mod 6)" by (simp add: zmod_int)
      then show ?thesis using one by simp
    qed
    have s5: "(int p dvd 6 * int j + (- 1)) = (p * ?x - ?x \<le> j \<and> (j - (p * ?x - ?x)) mod p = 0)"
      if "1 \<le> j" "lane_ok (- 1) k j" for j
      by (rule start_other [OF k p _ xp_lane1(2) [OF one p5] xp_lane1(3) [OF one p5] n5 that]) simp
    from lane_step [OF k p cs inv5 sz5 ln5 s5] obtain a5 y5 where
      c5: "bitmap_duplicate_segment x5 1 cs p = Inr a5
           \<and> bitmap_clear_mod_p a5 p (p * ?x - ?x) (cs * p + 1) = Inr y5
           \<and> same_shape y5 x5
           \<and> (\<forall>j. bit_at y5 j = (1 \<le> j \<and> j \<le> cs * p \<and> lane_ok (- 1) (Suc k) j))"
      by blast
    from lane_step [OF k p cs inv7 sz7 ln7 s7] obtain a7 y7 where
      c7: "bitmap_duplicate_segment x7 1 cs p = Inr a7
           \<and> bitmap_clear_mod_p a7 p ?x (cs * p + 1) = Inr y7
           \<and> same_shape y7 x7
           \<and> (\<forall>j. bit_at y7 j = (1 \<le> j \<and> j \<le> cs * p \<and> lane_ok 1 (Suc k) j))"
      by blast
    have "iZm_step p cs x5 x7 = Inr (y5, y7)"
      using c5 c7 br by (simp add: iZm_step_def Let_def)
    then show ?thesis using c5 c7 by (simp add: wheel_inv_def)
  qed
qed

lemma vx2_step_ok:
  assumes r5: "i div 8 < length (b_data x5)" and r7: "i div 8 < length (b_data x7)"
  shows "\<exists>a5 a7. construct_vx2_step i (Inr (x5, x7)) = Inr (a5, a7)
           \<and> same_shape a5 x5 \<and> same_shape a7 x7
           \<and> (\<forall>j. bit_at a5 j = (bit_at x5 j \<or> (j = i \<and> (i - 1) mod 5 \<noteq> 0 \<and> (i + 1) mod 7 \<noteq> 0)))
           \<and> (\<forall>j. bit_at a7 j = (bit_at x7 j \<or> (j = i \<and> (i + 1) mod 5 \<noteq> 0 \<and> (i - 1) mod 7 \<noteq> 0)))"
proof -
  from set_bit_ok [OF r5] obtain s5 where
    s5: "bitmap_set_bit x5 i = Inr s5" "same_shape s5 x5" "\<forall>j. bit_at s5 j = (j = i \<or> bit_at x5 j)"
    by blast
  from set_bit_ok [OF r7] obtain s7 where
    s7: "bitmap_set_bit x7 i = Inr s7" "same_shape s7 x7" "\<forall>j. bit_at s7 j = (j = i \<or> bit_at x7 j)"
    by blast
  let ?c5 = "(i - 1) mod 5 \<noteq> 0 \<and> (i + 1) mod 7 \<noteq> 0"
  let ?c7 = "(i + 1) mod 5 \<noteq> 0 \<and> (i - 1) mod 7 \<noteq> 0"
  let ?a5 = "if ?c5 then s5 else x5"
  let ?a7 = "if ?c7 then s7 else x7"
  have "construct_vx2_step i (Inr (x5, x7)) = Inr (?a5, ?a7)"
    using s5(1) s7(1) by (simp add: construct_vx2_step_def)
  moreover have "same_shape ?a5 x5" "same_shape ?a7 x7" using s5(2) s7(2) by simp_all
  moreover have "\<forall>j. bit_at ?a5 j = (bit_at x5 j \<or> (j = i \<and> ?c5))" using s5(3) by auto
  moreover have "\<forall>j. bit_at ?a7 j = (bit_at x7 j \<or> (j = i \<and> ?c7))" using s7(3) by auto
  ultimately show ?thesis by blast
qed

lemma vx2_fold_ok:
  assumes "n \<le> 35" and l5: "4 < length (b_data x5)" and l7: "4 < length (b_data x7)"
  shows "\<exists>a5 a7. fold construct_vx2_step [1..<Suc n] (Inr (x5, x7)) = Inr (a5, a7)
           \<and> same_shape a5 x5 \<and> same_shape a7 x7
           \<and> (\<forall>j. bit_at a5 j = (bit_at x5 j \<or> (1 \<le> j \<and> j \<le> n \<and> (j - 1) mod 5 \<noteq> 0 \<and> (j + 1) mod 7 \<noteq> 0)))
           \<and> (\<forall>j. bit_at a7 j = (bit_at x7 j \<or> (1 \<le> j \<and> j \<le> n \<and> (j + 1) mod 5 \<noteq> 0 \<and> (j - 1) mod 7 \<noteq> 0)))"
  using assms(1)
proof (induction n)
  case 0
  show ?case by auto
next
  case (Suc n)
  then have "n \<le> 35" by simp
  from Suc.IH [OF this] obtain b5 b7 where
    f: "fold construct_vx2_step [1..<Suc n] (Inr (x5, x7)) = Inr (b5, b7)"
    and sh: "same_shape b5 x5" "same_shape b7 x7"
    and i5: "\<forall>j. bit_at b5 j = (bit_at x5 j \<or> (1 \<le> j \<and> j \<le> n \<and> (j - 1) mod 5 \<noteq> 0 \<and> (j + 1) mod 7 \<noteq> 0))"
    and i7: "\<forall>j. bit_at b7 j = (bit_at x7 j \<or> (1 \<le> j \<and> j \<le> n \<and> (j + 1) mod 5 \<noteq> 0 \<and> (j - 1) mod 7 \<noteq> 0))"
    by blast
  have "Suc n div 8 \<le> 4" using Suc.prems by simp
  then have r5: "Suc n div 8 < length (b_data b5)" and r7: "Suc n div 8 < length (b_data b7)"
    using l5 l7 sh by (simp_all add: same_shape_def)
  from vx2_step_ok [OF r5 r7] obtain a5 a7 where
    st: "construct_vx2_step (Suc n) (Inr (b5, b7)) = Inr (a5, a7)"
    and sh': "same_shape a5 b5" "same_shape a7 b7"
    and j5: "\<forall>j. bit_at a5 j = (bit_at b5 j \<or> (j = Suc n \<and> (Suc n - 1) mod 5 \<noteq> 0 \<and> (Suc n + 1) mod 7 \<noteq> 0))"
    and j7: "\<forall>j. bit_at a7 j = (bit_at b7 j \<or> (j = Suc n \<and> (Suc n + 1) mod 5 \<noteq> 0 \<and> (Suc n - 1) mod 7 \<noteq> 0))"
    by blast
  have ff: "fold construct_vx2_step [1..<Suc (Suc n)] (Inr (x5, x7)) = Inr (a5, a7)"
    using f st by simp
  have k5: "bit_at a5 j = (bit_at x5 j \<or> (1 \<le> j \<and> j \<le> Suc n \<and> (j - 1) mod 5 \<noteq> 0 \<and> (j + 1) mod 7 \<noteq> 0))" for j
    using i5 [rule_format, of j] j5 [rule_format, of j] by (cases "j = Suc n") auto
  have k7: "bit_at a7 j = (bit_at x7 j \<or> (1 \<le> j \<and> j \<le> Suc n \<and> (j + 1) mod 5 \<noteq> 0 \<and> (j - 1) mod 7 \<noteq> 0))" for j
    using i7 [rule_format, of j] j7 [rule_format, of j] by (cases "j = Suc n") auto
  show ?case
    using ff same_shape_trans [OF sh'(1) sh(1)] same_shape_trans [OF sh'(2) sh(2)] k5 k7
    by blast
qed

lemma lane_ok_2_minus:
  assumes "1 \<le> j"
  shows "lane_ok (- 1) 2 j = ((j - 1) mod 5 \<noteq> 0 \<and> (j + 1) mod 7 \<noteq> 0)"
proof -
  have n: "s_primes ! 0 = 5" "s_primes ! 1 = 7" by (simp_all add: s_primes_def)
  have "lane_ok (- 1) 2 j = (\<not> (5::int) dvd 6 * int j - 1 \<and> \<not> (7::int) dvd 6 * int j - 1)"
    using n by (auto simp: lane_ok_def less_Suc_eq numeral_2_eq_2)
  also have "\<dots> = ((j - 1) mod 5 \<noteq> 0 \<and> (j + 1) mod 7 \<noteq> 0)"
    using assms by presburger
  finally show ?thesis .
qed

lemma lane_ok_2_plus:
  assumes "1 \<le> j"
  shows "lane_ok 1 2 j = ((j + 1) mod 5 \<noteq> 0 \<and> (j - 1) mod 7 \<noteq> 0)"
proof -
  have n: "s_primes ! 0 = 5" "s_primes ! 1 = 7" by (simp_all add: s_primes_def)
  have "lane_ok 1 2 j = (\<not> (5::int) dvd 6 * int j + 1 \<and> \<not> (7::int) dvd 6 * int j + 1)"
    using n by (auto simp: lane_ok_def less_Suc_eq numeral_2_eq_2)
  also have "\<dots> = ((j + 1) mod 5 \<noteq> 0 \<and> (j - 1) mod 7 \<noteq> 0)"
    using assms by presburger
  finally show ?thesis .
qed

lemma construct_vx2_ok:
  assumes z5: "all_clear x5" and z7: "all_clear x7"
    and l5: "4 < length (b_data x5)" and l7: "4 < length (b_data x7)"
  shows "\<exists>a5 a7. construct_vx2 x5 x7 = Inr (a5, a7) \<and> same_shape a5 x5 \<and> same_shape a7 x7
           \<and> wheel_inv 2 35 a5 a7"
proof -
  have e: "[1..<36] = [1..<Suc 35]" by simp
  from vx2_fold_ok [OF le_refl l5 l7] obtain a5 a7 where
    f: "fold construct_vx2_step [1..<Suc 35] (Inr (x5, x7)) = Inr (a5, a7)"
    and sh: "same_shape a5 x5" "same_shape a7 x7"
    and i5: "\<forall>j. bit_at a5 j = (bit_at x5 j \<or> (1 \<le> j \<and> j \<le> 35 \<and> (j - 1) mod 5 \<noteq> 0 \<and> (j + 1) mod 7 \<noteq> 0))"
    and i7: "\<forall>j. bit_at a7 j = (bit_at x7 j \<or> (1 \<le> j \<and> j \<le> 35 \<and> (j + 1) mod 5 \<noteq> 0 \<and> (j - 1) mod 7 \<noteq> 0))"
    by blast
  have c: "construct_vx2 x5 x7 = Inr (a5, a7)"
    unfolding construct_vx2_def e using f .
  have w5: "bit_at a5 j = (1 \<le> j \<and> j \<le> 35 \<and> lane_ok (- 1) 2 j)" for j
    using i5 [rule_format, of j] z5 lane_ok_2_minus [of j] by (auto simp: all_clear_def)
  have w7: "bit_at a7 j = (1 \<le> j \<and> j \<le> 35 \<and> lane_ok 1 2 j)" for j
    using i7 [rule_format, of j] z7 lane_ok_2_plus [of j] by (auto simp: all_clear_def)
  show ?thesis using c sh w5 w7 by (simp add: wheel_inv_def)
qed

lemma s_primes_take_mono:
  assumes "i \<le> j"
  shows "prod_list (take i s_primes) \<le> prod_list (take j s_primes)"
proof -
  have "take j s_primes = take i (take j s_primes) @ drop i (take j s_primes)"
    by (rule append_take_drop_id [symmetric])
  moreover have "take i (take j s_primes) = take i s_primes"
    using assms by (simp add: min_def)
  ultimately have "prod_list (take j s_primes)
      = prod_list (take i s_primes) * prod_list (drop i (take j s_primes))"
    by (metis prod_list.append)
  then have "prod_list (take i s_primes) dvd prod_list (take j s_primes)" by simp
  then show ?thesis using s_primes_take_pos [of j] by (rule dvd_imp_le)
qed

lemma s_primes_not_dvd_take:
  assumes k: "k < length s_primes"
  shows "\<not> s_primes ! k dvd prod_list (take k s_primes)"
proof
  assume d: "s_primes ! k dvd prod_list (take k s_primes)"
  have "coprime x (s_primes ! k)" if "x \<in> set (take k s_primes)" for x
  proof -
    from that obtain i where i: "i < length (take k s_primes)" "take k s_primes ! i = x"
      by (auto simp: in_set_conv_nth)
    then have "i < k" "s_primes ! i = x" using k by simp_all
    then show ?thesis using s_primes_nth_coprime [OF _ k] by blast
  qed
  then have "coprime (prod_list (take k s_primes)) (s_primes ! k)"
    by (rule prod_list_coprime_left)
  then have "is_unit (s_primes ! k)" using d
    by (meson coprime_common_divisor dvd_refl)
  then show False using s_primes_nth_bound [OF k] by simp
qed

lemma iZm_loop_ok:
  assumes "idx \<le> kk" and kk: "kk < length s_primes"
    and vx: "vx = prod_list (take kk s_primes)"
    and cs: "cs = prod_list (take idx s_primes)"
    and inv: "wheel_inv idx cs x5 x7"
    and sz5: "vx + 2 \<le> b_size x5" and ln5: "b_size x5 \<le> 8 * length (b_data x5)"
    and sz7: "vx + 2 \<le> b_size x7" and ln7: "b_size x7 \<le> 8 * length (b_data x7)"
  shows "\<exists>y5 y7. iZm_loop vx idx cs x5 x7 = Inr (y5, y7)
           \<and> same_shape y5 x5 \<and> same_shape y7 x7 \<and> wheel_inv kk vx y5 y7"
  using assms
proof (induction "kk - idx" arbitrary: idx cs x5 x7)
  case 0
  then have e: "idx = kk" by simp
  have nd: "vx mod (s_primes ! kk) \<noteq> 0"
    using s_primes_not_dvd_take [OF kk] vx by (simp add: mod_eq_0_iff_dvd)
  have "iZm_loop vx idx cs x5 x7 = Inr (x5, x7)"
    using e kk nd by (subst iZm_loop.simps) simp
  moreover have "wheel_inv kk vx x5 x7" using "0.prems"(4,5) e vx by simp
  ultimately show ?case by simp
next
  case (Suc n)
  then have lt: "idx < kk" by simp
  then have k: "idx < length s_primes" using kk by simp
  let ?p = "s_primes ! idx"
  have dv: "vx mod ?p = 0"
    using s_primes_take_dvd [OF lt less_imp_le [OF kk]] vx by (simp add: mod_eq_0_iff_dvd)
  have cs': "cs * ?p = prod_list (take (Suc idx) s_primes)"
    using s_primes_take_Suc [OF k] Suc.prems(4) by simp
  have le: "cs * ?p \<le> vx"
    unfolding cs' vx using lt by (intro s_primes_take_mono) simp
  have a5: "cs * ?p + 2 \<le> b_size x5" and a7: "cs * ?p + 2 \<le> b_size x7"
    using le Suc.prems(6,8) by simp_all
  from iZm_step_ok [OF k refl Suc.prems(4) Suc.prems(5) a5 Suc.prems(7) a7 Suc.prems(9)]
  obtain m5 m7 where
    st: "iZm_step ?p cs x5 x7 = Inr (m5, m7)"
    and sh: "same_shape m5 x5" "same_shape m7 x7"
    and w: "wheel_inv (Suc idx) (cs * ?p) m5 m7"
    by blast
  have n: "n = kk - Suc idx" using Suc.hyps(2) by simp
  have l: "Suc idx \<le> kk" using lt by simp
  have b5: "vx + 2 \<le> b_size m5" "b_size m5 \<le> 8 * length (b_data m5)"
    using sh(1) Suc.prems(6,7) by (simp_all add: same_shape_def)
  have b7: "vx + 2 \<le> b_size m7" "b_size m7 \<le> 8 * length (b_data m7)"
    using sh(2) Suc.prems(8,9) by (simp_all add: same_shape_def)
  from Suc.hyps(1) [OF n l kk vx cs' w b5 b7]
  obtain y5 y7 where
    r: "iZm_loop vx (Suc idx) (cs * ?p) m5 m7 = Inr (y5, y7)"
    and sh2: "same_shape y5 m5" "same_shape y7 m7"
    and w2: "wheel_inv kk vx y5 y7"
    by blast
  have "iZm_loop vx idx cs x5 x7 = Inr (y5, y7)"
    using k dv st r by (subst iZm_loop.simps) simp
  then show ?case
    using same_shape_trans [OF sh2(1) sh(1)] same_shape_trans [OF sh2(2) sh(2)] w2 by blast
qed

lemma is_prime_list:
  assumes "1 < n" and "list_all (\<lambda>d. \<not> d dvd n) [2..<n]"
  shows "is_prime n"
  unfolding is_prime_def
proof (intro conjI allI impI)
  show "1 < n" by fact
  fix d assume d: "d dvd n"
  show "d = 1 \<or> d = n"
  proof (rule ccontr)
    assume c: "\<not> (d = 1 \<or> d = n)"
    have "d \<le> n" using d assms(1) by (simp add: dvd_imp_le)
    moreover have "d \<noteq> 0" using d assms(1) by (metis dvd_0_left not_less_zero)
    ultimately have "d \<in> {2..<n}" using c by auto
    then have "d \<in> set [2..<n]" by (simp only: set_upt)
    then have "\<not> d dvd n" using assms(2) unfolding list_all_iff by blast
    with d show False by simp
  qed
qed

lemma s_primes_prime_list:
  "list_all (\<lambda>p. 1 < p \<and> list_all (\<lambda>d. \<not> d dvd p) [2..<p]) s_primes"
  by code_simp

lemma s_primes_prime: "i < length s_primes \<Longrightarrow> is_prime (s_primes ! i)"
  using s_primes_prime_list by (simp add: list_all_length is_prime_list)

lemma is_prime_dvd_mult:
  assumes q: "is_prime q" and d: "q dvd a * b"
  shows "q dvd a \<or> q dvd b"
proof (cases "q dvd a")
  case True
  then show ?thesis by simp
next
  case False
  have "coprime q a"
  proof (rule coprimeI)
    fix c assume c: "c dvd q" "c dvd a"
    then have "c = 1 \<or> c = q" using q by (simp add: is_prime_def)
    then show "is_unit c" using c(2) False by auto
  qed
  then have "q dvd b" using d by (simp add: coprime_dvd_mult_right_iff)
  then show ?thesis by simp
qed

lemma is_prime_dvd_prod_list:
  assumes "is_prime q" and "q dvd prod_list xs"
  shows "\<exists>x\<in>set xs. q dvd x"
  using assms(2)
proof (induction xs)
  case Nil
  then show ?case using assms(1) by (simp add: is_prime_def)
next
  case (Cons x xs)
  then have "q dvd x \<or> q dvd prod_list xs"
    using is_prime_dvd_mult [OF assms(1)] by simp
  then show ?case using Cons.IH by auto
qed

lemma primes_of_take:
  assumes k: "k \<le> length s_primes" and vx: "vx = prod_list (take k s_primes)"
  shows "(\<forall>q. is_prime q \<and> q dvd vx \<longrightarrow> \<not> q dvd c) = (\<forall>i<k. \<not> s_primes ! i dvd c)"
proof
  assume a: "\<forall>q. is_prime q \<and> q dvd vx \<longrightarrow> \<not> q dvd c"
  show "\<forall>i<k. \<not> s_primes ! i dvd c"
  proof (intro allI impI)
    fix i assume i: "i < k"
    then have "is_prime (s_primes ! i)" using k by (simp add: s_primes_prime)
    moreover have "s_primes ! i dvd vx" using s_primes_take_dvd [OF i k] vx by simp
    ultimately show "\<not> s_primes ! i dvd c" using a by blast
  qed
next
  assume a: "\<forall>i<k. \<not> s_primes ! i dvd c"
  show "\<forall>q. is_prime q \<and> q dvd vx \<longrightarrow> \<not> q dvd c"
  proof (intro allI impI)
    fix q assume q: "is_prime q \<and> q dvd vx"
    then obtain x where x: "x \<in> set (take k s_primes)" "q dvd x"
      using is_prime_dvd_prod_list vx by blast
    then obtain i where i: "i < length (take k s_primes)" "take k s_primes ! i = x"
      by (auto simp: in_set_conv_nth)
    then have ik: "i < k" and xi: "s_primes ! i = x" using k by simp_all
    have "is_prime x" using ik k xi s_primes_prime [of i] by simp
    then have "q = 1 \<or> q = x" using x(2) by (simp add: is_prime_def)
    then have "q = x" using q by (auto simp: is_prime_def)
    then show "\<not> q dvd c" using a ik xi by blast
  qed
qed

lemma lane_ok_minus_nat:
  assumes "1 \<le> j"
  shows "lane_ok (- 1) k j = (\<forall>i<k. \<not> s_primes ! i dvd 6 * j - 1)"
proof -
  have "int (6 * j - 1) = 6 * int j + (- 1)" using assms by simp
  then have "(int q dvd 6 * int j + (- 1)) = (q dvd 6 * j - 1)" for q
    by (metis int_dvd_int_iff)
  then show ?thesis by (simp only: lane_ok_def)
qed

lemma lane_ok_plus_nat:
  "lane_ok 1 k j = (\<forall>i<k. \<not> s_primes ! i dvd 6 * j + 1)"
proof -
  have "int (6 * j + 1) = 6 * int j + 1" by simp
  then have "(int q dvd 6 * int j + 1) = (q dvd 6 * j + 1)" for q
    by (metis int_dvd_int_iff)
  then show ?thesis by (simp only: lane_ok_def)
qed

lemma bitmap_create_ok:
  assumes "bitmap_create sz = Inr z"
  shows "all_clear z" and "b_size z = sz" and "length (b_data z) = (sz + 7) div 8"
proof -
  have z: "z = \<lparr>b_size = sz, b_data = replicate ((sz + 7) div 8) 0, b_sha256 = replicate 32 0\<rparr>"
    using assms by (auto simp: bitmap_create_def split: if_splits)
  show "all_clear z" unfolding z all_clear_def by (simp add: bit_at_iff)
  show "b_size z = sz" unfolding z by simp
  show "length (b_data z) = (sz + 7) div 8" unfolding z by simp
qed

lemma construct_iZm_segment_ok:
  assumes k2: "2 \<le> k" and k: "k < length s_primes"
    and vx: "vx = prod_list (take k s_primes)"
    and c5: "bitmap_create sz5 = Inr z5" and c7: "bitmap_create sz7 = Inr z7"
    and s5: "vx + 2 \<le> sz5" and s7: "vx + 2 \<le> sz7"
  shows "\<exists>x5 x7. construct_iZm_segment vx z5 z7 = Inr (x5, x7)
           \<and> same_shape x5 z5 \<and> same_shape x7 z7 \<and> wheel_inv k vx x5 x7"
proof -
  have v35: "35 \<le> vx"
  proof -
    have "prod_list (take 2 s_primes) = 35" by (simp add: s_primes_def)
    then show ?thesis using s_primes_take_mono [OF k2] vx by simp
  qed
  have l5: "4 < length (b_data z5)" and l7: "4 < length (b_data z7)"
    using bitmap_create_ok(3) [OF c5] bitmap_create_ok(3) [OF c7] s5 s7 v35 by simp_all
  from construct_vx2_ok [OF bitmap_create_ok(1) [OF c5] bitmap_create_ok(1) [OF c7] l5 l7]
  obtain a5 a7 where
    a: "construct_vx2 z5 z7 = Inr (a5, a7)" and sh: "same_shape a5 z5" "same_shape a7 z7"
    and w: "wheel_inv 2 35 a5 a7" by blast
  have cs: "35 = prod_list (take 2 s_primes)" by (simp add: s_primes_def)
  have b5: "vx + 2 \<le> b_size a5" "b_size a5 \<le> 8 * length (b_data a5)"
    using sh(1) bitmap_create_ok(2,3) [OF c5] s5 by (simp_all add: same_shape_def)
  have b7: "vx + 2 \<le> b_size a7" "b_size a7 \<le> 8 * length (b_data a7)"
    using sh(2) bitmap_create_ok(2,3) [OF c7] s7 by (simp_all add: same_shape_def)
  from iZm_loop_ok [OF k2 k vx cs w b5 b7] obtain x5 x7 where
    r: "iZm_loop vx 2 35 a5 a7 = Inr (x5, x7)"
    and sh2: "same_shape x5 a5" "same_shape x7 a7" and w2: "wheel_inv k vx x5 x7" by blast
  have "construct_iZm_segment vx z5 z7 = Inr (x5, x7)"
    using a r by (simp add: construct_iZm_segment_def)
  then show ?thesis
    using same_shape_trans [OF sh2(1) sh(1)] same_shape_trans [OF sh2(2) sh(2)] w2 by blast
qed

text \<open>
  C5 (amended).  Let \<open>vx\<close> be the product of the first \<open>k\<close> small primes
  \<open>5, 7, 11, \<dots>\<close> (\<open>2 \<le> k < 23\<close>), and let \<open>x5\<close>, \<open>x7\<close> be fresh bitmaps of at least
  \<open>vx + 2\<close> bits.  After \<open>construct_iZm_segment vx x5 x7\<close>, bit \<open>x\<close> of \<open>x5\<close> is set
  exactly when \<open>1 \<le> x \<le> vx\<close> and no prime dividing \<open>vx\<close> divides \<open>6 x - 1\<close>, and bit
  \<open>x\<close> of \<open>x7\<close> is set exactly when \<open>1 \<le> x \<le> vx\<close> and no prime dividing \<open>vx\<close>
  divides \<open>6 x + 1\<close>.  (So the indices with both bits set are those where neither
  \<open>6 x - 1\<close> nor \<open>6 x + 1\<close> has such a factor; the union of the two lanes is larger.)
\<close>

theorem wheel_lanes:
  assumes k2: "2 \<le> k" and k: "k < 23"
    and vx: "vx = prod_list (take k s_primes)"
    and c5: "bitmap_create sz5 = Inr z5" and c7: "bitmap_create sz7 = Inr z7"
    and s5: "vx + 2 \<le> sz5" and s7: "vx + 2 \<le> sz7"
  shows "\<exists>x5 x7. construct_iZm_segment vx z5 z7 = Inr (x5, x7)
           \<and> (\<forall>x. bit_at x5 x = (1 \<le> x \<and> x \<le> vx
                  \<and> (\<forall>q. is_prime q \<and> q dvd vx \<longrightarrow> \<not> q dvd 6 * x - 1)))
           \<and> (\<forall>x. bit_at x7 x = (1 \<le> x \<and> x \<le> vx
                  \<and> (\<forall>q. is_prime q \<and> q dvd vx \<longrightarrow> \<not> q dvd 6 * x + 1)))"
proof -
  have kl: "k < length s_primes" using k by (simp add: s_primes_length)
  from construct_iZm_segment_ok [OF k2 kl vx c5 c7 s5 s7] obtain x5 x7 where
    r: "construct_iZm_segment vx z5 z7 = Inr (x5, x7)" and w: "wheel_inv k vx x5 x7" by blast
  have p5: "(\<forall>q. is_prime q \<and> q dvd vx \<longrightarrow> \<not> q dvd 6 * x - 1) = lane_ok (- 1) k x"
    if "1 \<le> x" for x
    using primes_of_take [OF less_imp_le [OF kl] vx] lane_ok_minus_nat [OF that] by simp
  have p7: "(\<forall>q. is_prime q \<and> q dvd vx \<longrightarrow> \<not> q dvd 6 * x + 1) = lane_ok 1 k x" for x
    using primes_of_take [OF less_imp_le [OF kl] vx] lane_ok_plus_nat by simp
  have "bit_at x5 x = (1 \<le> x \<and> x \<le> vx
          \<and> (\<forall>q. is_prime q \<and> q dvd vx \<longrightarrow> \<not> q dvd 6 * x - 1))" for x
    using w p5 [of x] unfolding wheel_inv_def by blast
  moreover have "bit_at x7 x = (1 \<le> x \<and> x \<le> vx
          \<and> (\<forall>q. is_prime q \<and> q dvd vx \<longrightarrow> \<not> q dvd 6 * x + 1))" for x
    using w p7 [of x] unfolding wheel_inv_def by blast
  ultimately show ?thesis using r by blast
qed

lemma dup_then_clear:
  assumes p: "0 < p" and cs: "0 < cs"
    and sz: "cs * p + 2 \<le> b_size b" and ln: "b_size b \<le> 8 * length (b_data b)"
  shows "\<exists>b1 b2. bitmap_duplicate_segment b 1 cs p = Inr b1
           \<and> bitmap_clear_mod_p b1 p st (cs * p + 1) = Inr b2
           \<and> (\<forall>j. bit_at b2 j = (dup_pattern b cs p j \<and> \<not> struck p st (cs * p + 1) j))"
proof -
  have d1: "1 + cs * p \<le> b_size b" using sz by simp
  from duplicate_segment_ok [OF cs p d1 ln] obtain b1 where
    b1c: "bitmap_duplicate_segment b 1 cs p = Inr b1 \<and> same_shape b1 b
        \<and> (\<forall>j. bit_at b1 j = (if 1 + cs \<le> j \<and> j < 1 + cs * p
                              then bit_at b (1 + (j - 1) mod cs) else bit_at b j))" ..
  note b1 = conjunct1 [OF b1c] conjunct1 [OF conjunct2 [OF b1c]] conjunct2 [OF conjunct2 [OF b1c]]
  have "length (b_data b1) = length (b_data b)" using b1(2) by (simp add: same_shape_def)
  then have "cs * p + 1 < 8 * length (b_data b1)" using sz ln by simp
  then have lim: "(cs * p + 1) div 8 < length (b_data b1)"
    by (simp add: div_less_iff_less_mult)
  have "\<exists>b2. bitmap_clear_mod_p b1 p st (cs * p + 1) = Inr b2 \<and> same_shape b2 b1
        \<and> (\<forall>j. bit_at b2 j = (bit_at b1 j \<and> \<not> (st \<le> j \<and> j \<le> cs * p + 1 \<and> (j - st) mod p = 0)))"
    by (rule clear_mod_p_ok [OF p lim])
  then obtain b2 where
    b2c: "bitmap_clear_mod_p b1 p st (cs * p + 1) = Inr b2 \<and> same_shape b2 b1
        \<and> (\<forall>j. bit_at b2 j = (bit_at b1 j \<and> \<not> (st \<le> j \<and> j \<le> cs * p + 1 \<and> (j - st) mod p = 0)))"
    ..
  note b2 = conjunct1 [OF b2c] conjunct2 [OF conjunct2 [OF b2c]]
  have "bit_at b2 j = (dup_pattern b cs p j \<and> \<not> struck p st (cs * p + 1) j)" for j
    unfolding dup_pattern_def struck_def
    using b2(2) [rule_format, of j] b1(3) [rule_format, of j] by (simp only:)
  then show ?thesis using b1(1) b2(1) by blast
qed

theorem wheel_lanes_witness:
  "2 \<le> (2::nat) \<and> (2::nat) < 23 \<and> (35::nat) = prod_list (take 2 s_primes)
   \<and> bitmap_create 45 = Inr \<lparr>b_size = 45, b_data = replicate 6 0, b_sha256 = replicate 32 0\<rparr>
   \<and> (35::nat) + 2 \<le> 45
   \<and> (\<exists>x5 x7. construct_iZm_segment 35
                  \<lparr>b_size = 45, b_data = replicate 6 0, b_sha256 = replicate 32 0\<rparr>
                  \<lparr>b_size = 45, b_data = replicate 6 0, b_sha256 = replicate 32 0\<rparr> = Inr (x5, x7)
           \<and> (\<forall>x. bit_at x5 x = (1 \<le> x \<and> x \<le> 35
                  \<and> (\<forall>q. is_prime q \<and> q dvd 35 \<longrightarrow> \<not> q dvd 6 * x - 1)))
           \<and> (\<forall>x. bit_at x7 x = (1 \<le> x \<and> x \<le> 35
                  \<and> (\<forall>q. is_prime q \<and> q dvd 35 \<longrightarrow> \<not> q dvd 6 * x + 1))))"
proof -
  have h1: "2 \<le> (2::nat)" by simp
  have h2: "(2::nat) < 23" by simp
  have h3: "(35::nat) = prod_list (take 2 s_primes)" by (simp add: s_primes_def)
  have h4: "bitmap_create 45 = Inr \<lparr>b_size = 45, b_data = replicate 6 0, b_sha256 = replicate 32 0\<rparr>"
    by (simp add: bitmap_create_def)
  have h5: "(35::nat) + 2 \<le> 45" by simp
  show ?thesis
    by (intro conjI h1 h2 h3 h4 h5) (rule wheel_lanes [OF h1 h2 h3 h4 h4 h5 h5])
qed

lemma vx2_pattern_400:
  "construct_vx2 \<lparr>b_size = 400, b_data = replicate 50 0, b_sha256 = []\<rparr>
                 \<lparr>b_size = 400, b_data = replicate 50 0, b_sha256 = []\<rparr>
   = Inr (\<lparr>b_size = 400, b_data = [188, 215, 206, 115, 11] @ replicate 45 0, b_sha256 = []\<rparr>,
          \<lparr>b_size = 400, b_data = [236, 60, 183, 222, 11] @ replicate 45 0, b_sha256 = []\<rparr>)"
  by code_simp

text \<open>
  C4 (amended).  In the loop body of \<open>construct_iZm_segment\<close> for a prime \<open>p\<close> with
  \<open>x_p = (p + 1) div 6\<close>, both bitmaps first receive \<open>p\<close> copies of the pattern
  \<open>[1, current_size]\<close>; then, if \<open>p mod 6 = 5\<close> (\<open>p\<close> in iZ-), the bits of \<open>x5\<close> at
  \<open>x_p, x_p + p, \<dots>\<close> and the bits of \<open>x7\<close> at \<open>p x_p - x_p, p x_p - x_p + p, \<dots>\<close> are
  cleared, and if \<open>p mod 6 = 1\<close> (\<open>p\<close> in iZ+) the assignment is reversed: \<open>x5\<close> is
  cleared from \<open>p x_p - x_p\<close> and \<open>x7\<close> from \<open>x_p\<close>; all up to \<open>current_size * p + 1\<close>.
\<close>

theorem iZm_step_lanes:
  assumes lane: "p mod 6 = 1 \<or> p mod 6 = 5" and cs: "0 < cs"
    and sz5: "cs * p + 2 \<le> b_size x5" and ln5: "b_size x5 \<le> 8 * length (b_data x5)"
    and sz7: "cs * p + 2 \<le> b_size x7" and ln7: "b_size x7 \<le> 8 * length (b_data x7)"
  shows "\<exists>y5 y7. iZm_step p cs x5 x7 = Inr (y5, y7)
    \<and> (\<forall>j. bit_at y5 j = (dup_pattern x5 cs p j
          \<and> \<not> struck p (if p mod 6 = 5 then (p + 1) div 6 else p * ((p + 1) div 6) - (p + 1) div 6)
                 (cs * p + 1) j))
    \<and> (\<forall>j. bit_at y7 j = (dup_pattern x7 cs p j
          \<and> \<not> struck p (if p mod 6 = 5 then p * ((p + 1) div 6) - (p + 1) div 6 else (p + 1) div 6)
                 (cs * p + 1) j))"
proof -
  let ?x = "(p + 1) div 6"
  have p: "0 < p" using lane by (cases "p = 0") auto
  show ?thesis
  proof (cases "p mod 6 = 5")
    case True
    from dup_then_clear [OF p cs sz5 ln5, of ?x] obtain a5 y5 where
      c5: "bitmap_duplicate_segment x5 1 cs p = Inr a5"
          "bitmap_clear_mod_p a5 p ?x (cs * p + 1) = Inr y5"
          "\<forall>j. bit_at y5 j = (dup_pattern x5 cs p j \<and> \<not> struck p ?x (cs * p + 1) j)"
      by blast
    from dup_then_clear [OF p cs sz7 ln7, of "p * ?x - ?x"] obtain a7 y7 where
      c7: "bitmap_duplicate_segment x7 1 cs p = Inr a7"
          "bitmap_clear_mod_p a7 p (p * ?x - ?x) (cs * p + 1) = Inr y7"
          "\<forall>j. bit_at y7 j = (dup_pattern x7 cs p j \<and> \<not> struck p (p * ?x - ?x) (cs * p + 1) j)"
      by blast
    have "iZm_step p cs x5 x7 = Inr (y5, y7)"
      using c5(1,2) c7(1,2) True by (simp add: iZm_step_def Let_def)
    then show ?thesis using c5(3) c7(3) True by simp
  next
    case False
    then have one: "p mod 6 = 1" using lane by simp
    from dup_then_clear [OF p cs sz5 ln5, of "p * ?x - ?x"] obtain a5 y5 where
      c5: "bitmap_duplicate_segment x5 1 cs p = Inr a5"
          "bitmap_clear_mod_p a5 p (p * ?x - ?x) (cs * p + 1) = Inr y5"
          "\<forall>j. bit_at y5 j = (dup_pattern x5 cs p j \<and> \<not> struck p (p * ?x - ?x) (cs * p + 1) j)"
      by blast
    from dup_then_clear [OF p cs sz7 ln7, of ?x] obtain a7 y7 where
      c7: "bitmap_duplicate_segment x7 1 cs p = Inr a7"
          "bitmap_clear_mod_p a7 p ?x (cs * p + 1) = Inr y7"
          "\<forall>j. bit_at y7 j = (dup_pattern x7 cs p j \<and> \<not> struck p ?x (cs * p + 1) j)"
      by blast
    have "iZm_step p cs x5 x7 = Inr (y5, y7)"
      using c5(1,2) c7(1,2) one by (simp add: iZm_step_def Let_def)
    then show ?thesis using c5(3) c7(3) one by simp
  qed
qed

text \<open>
  The step for \<open>p = 11\<close> on the pattern of \<open>construct_vx2\<close> in bitmaps of 400 bits.
  Both lanes have bit 2 set (\<open>11\<close> and \<open>13\<close>).  As \<open>11 mod 6 = 5\<close>, the step clears
  \<open>x5\<close> from \<open>x_p = 2\<close> (bits 2 and 24: \<open>11\<close> and \<open>143 = 11 * 13\<close>) and \<open>x7\<close> from
  \<open>11 * 2 - 2 = 20\<close> (\<open>121 = 11 * 11\<close>); bit 2 of \<open>x7\<close> and bit 3 of both lanes
  (\<open>17\<close> and \<open>19\<close>) stay.
\<close>

theorem iZm_step_lanes_witness:
  "construct_vx2 \<lparr>b_size = 400, b_data = replicate 50 0, b_sha256 = []\<rparr>
                 \<lparr>b_size = 400, b_data = replicate 50 0, b_sha256 = []\<rparr>
     = Inr (\<lparr>b_size = 400, b_data = [188, 215, 206, 115, 11] @ replicate 45 0, b_sha256 = []\<rparr>,
            \<lparr>b_size = 400, b_data = [236, 60, 183, 222, 11] @ replicate 45 0, b_sha256 = []\<rparr>)
   \<and> ((11::nat) mod 6 = 1 \<or> (11::nat) mod 6 = 5) \<and> (0::nat) < 35
   \<and> bit_at \<lparr>b_size = 400, b_data = [188, 215, 206, 115, 11] @ replicate 45 0, b_sha256 = []\<rparr> 2
   \<and> bit_at \<lparr>b_size = 400, b_data = [188, 215, 206, 115, 11] @ replicate 45 0, b_sha256 = []\<rparr> 24
   \<and> bit_at \<lparr>b_size = 400, b_data = [236, 60, 183, 222, 11] @ replicate 45 0, b_sha256 = []\<rparr> 2
   \<and> bit_at \<lparr>b_size = 400, b_data = [236, 60, 183, 222, 11] @ replicate 45 0, b_sha256 = []\<rparr> 20
   \<and> (\<exists>y5 y7. iZm_step 11 35
         \<lparr>b_size = 400, b_data = [188, 215, 206, 115, 11] @ replicate 45 0, b_sha256 = []\<rparr>
         \<lparr>b_size = 400, b_data = [236, 60, 183, 222, 11] @ replicate 45 0, b_sha256 = []\<rparr>
         = Inr (y5, y7)
       \<and> \<not> bit_at y5 2 \<and> \<not> bit_at y5 24 \<and> bit_at y5 3
       \<and> bit_at y7 2 \<and> \<not> bit_at y7 20 \<and> bit_at y7 3)"
proof -
  let ?X5 = "\<lparr>b_size = 400, b_data = [188, 215, 206, 115, 11] @ replicate 45 0, b_sha256 = []\<rparr>"
  let ?X7 = "\<lparr>b_size = 400, b_data = [236, 60, 183, 222, 11] @ replicate 45 0, b_sha256 = []\<rparr>"
  have h: "(11::nat) mod 6 = 1 \<or> (11::nat) mod 6 = 5" by simp
  have c: "(0::nat) < 35" by simp
  have s5: "35 * 11 + 2 \<le> b_size ?X5" "b_size ?X5 \<le> 8 * length (b_data ?X5)" by simp_all
  have s7: "35 * 11 + 2 \<le> b_size ?X7" "b_size ?X7 \<le> 8 * length (b_data ?X7)" by simp_all
  have b5: "bit_at ?X5 2" "bit_at ?X5 24" "bit_at ?X5 3"
    by (simp_all add: bit_at_iff)
  have b7: "bit_at ?X7 2" "bit_at ?X7 20" "bit_at ?X7 3"
    by (simp_all add: bit_at_iff)
  from iZm_step_lanes [OF h c s5 s7] obtain y5 y7 where
    st: "iZm_step 11 35 ?X5 ?X7 = Inr (y5, y7)"
    and r5: "\<forall>j. bit_at y5 j = (dup_pattern ?X5 35 11 j
          \<and> \<not> struck 11 (if (11::nat) mod 6 = 5 then (11 + 1) div 6 else 11 * ((11 + 1) div 6) - (11 + 1) div 6)
                 (35 * 11 + 1) j)"
    and r7: "\<forall>j. bit_at y7 j = (dup_pattern ?X7 35 11 j
          \<and> \<not> struck 11 (if (11::nat) mod 6 = 5 then 11 * ((11 + 1) div 6) - (11 + 1) div 6 else (11 + 1) div 6)
                 (35 * 11 + 1) j)"
    by blast
  have d5: "dup_pattern ?X5 35 11 2" "dup_pattern ?X5 35 11 24" "dup_pattern ?X5 35 11 3"
    unfolding dup_pattern_def using b5 by simp_all
  have d7: "dup_pattern ?X7 35 11 2" "dup_pattern ?X7 35 11 20" "dup_pattern ?X7 35 11 3"
    unfolding dup_pattern_def using b7 by simp_all
  have y5: "\<not> bit_at y5 2" "\<not> bit_at y5 24" "bit_at y5 3"
    unfolding r5 [rule_format] using d5 by (simp_all add: struck_def)
  have y7: "bit_at y7 2" "\<not> bit_at y7 20" "bit_at y7 3"
    unfolding r7 [rule_format] using d7 by (simp_all add: struck_def)
  show ?thesis
    using vx2_pattern_400 h c b5 b7 st y5 y7 by blast
qed

lemma lane_ok_0: "lane_ok e 0 j"
  by (simp add: lane_ok_def)

text \<open>
  C4 (as stated, refuted).  The claim gives \<open>x5\<close> the progression from \<open>x_p\<close> when
  \<open>p mod 6 = 1\<close>.  For \<open>vx = 5005\<close> the prime \<open>13\<close> has \<open>13 mod 6 = 1\<close> and \<open>x_p = 2\<close>:
  bit \<open>x_p + 13 = 15\<close> of \<open>x5\<close> would then be cleared, and bit \<open>2\<close> of \<open>x7\<close>, which lies
  below \<open>p x_p - x_p = 24\<close>, would still be set.  The code leaves bit \<open>15\<close> of \<open>x5\<close> set
  (\<open>6 * 15 - 1 = 89\<close>) and clears bit \<open>2\<close> of \<open>x7\<close> (\<open>6 * 2 + 1 = 13\<close>).
\<close>

theorem wheel_lane_assignment_counterexample:
  "case bitmap_create 5015 of
     Inl e \<Rightarrow> False
   | Inr z \<Rightarrow> (case construct_iZm_segment 5005 z z of
                 Inl e \<Rightarrow> False
               | Inr (x5, x7) \<Rightarrow> 13 mod 6 = (1::nat) \<and> (13 + 1) div 6 = (2::nat)
                     \<and> bit_at x5 (2 + 13) \<and> \<not> bit_at x7 2)"
proof -
  obtain z where z: "bitmap_create 5015 = Inr z" by (simp add: bitmap_create_def)
  have k: "(4::nat) < length s_primes" by (simp add: s_primes_def)
  have vx: "5005 = prod_list (take 4 s_primes)" by (simp add: s_primes_def)
  from construct_iZm_segment_ok [OF _ k vx z z] obtain x5 x7 where
    r: "construct_iZm_segment 5005 z z = Inr (x5, x7)" and w: "wheel_inv 4 5005 x5 x7"
    by auto
  have n: "s_primes ! 0 = 5" "s_primes ! 1 = 7" "s_primes ! 2 = 11" "s_primes ! 3 = 13"
    "s_primes ! Suc 0 = 7" "s_primes ! Suc (Suc 0) = 11" "s_primes ! Suc (Suc (Suc 0)) = 13"
    by (simp_all add: s_primes_def)
  have four: "(4::nat) = Suc (Suc (Suc (Suc 0)))" by simp
  have a: "lane_ok (- 1) 4 15"
    unfolding four lane_ok_Suc using n by (simp add: lane_ok_0)
  have b: "\<not> lane_ok 1 4 2"
    unfolding four lane_ok_Suc using n by (simp add: lane_ok_0)
  have "bit_at x5 15" "\<not> bit_at x7 2"
    using w a b by (simp_all add: wheel_inv_def)
  then show ?thesis using z r by simp
qed

text \<open>
  C5 (as stated, refuted).  The claim describes the set of indices with \<open>x5[x] = 1\<close>
  \<^emph>\<open>or\<close> \<open>x7[x] = 1\<close>.  For \<open>vx = 35\<close> bit \<open>4\<close> of \<open>x5\<close> is set (\<open>6 * 4 - 1 = 23\<close>), so \<open>4\<close>
  is in that set, although the prime \<open>5\<close> divides both \<open>vx\<close> and \<open>6 * 4 + 1 = 25\<close>.
\<close>

theorem wheel_union_counterexample:
  "is_prime 5 \<and> 5 dvd (35::nat) \<and> 5 dvd (6 * 4 + 1 :: nat)
   \<and> (case bitmap_create 45 of
         Inl e \<Rightarrow> False
       | Inr z \<Rightarrow> (case construct_iZm_segment 35 z z of
                     Inl e \<Rightarrow> False
                   | Inr (x5, x7) \<Rightarrow> bit_at x5 4 \<and> \<not> bit_at x7 4))"
proof -
  have p: "is_prime 5" using s_primes_prime [of 0] by (simp add: s_primes_def)
  have c: "case bitmap_create 45 of
         Inl e \<Rightarrow> False
       | Inr z \<Rightarrow> (case construct_iZm_segment 35 z z of
                     Inl e \<Rightarrow> False
                   | Inr (x5, x7) \<Rightarrow> bit_at x5 4 \<and> \<not> bit_at x7 4)"
    by code_simp
  show ?thesis using p c by simp
qed

section \<open>The random prime search\<close>























section \<open>Writing a file and reading it back\<close>

lemma length_le_bytes [simp]: "length (le_bytes n v) = n"
  by (induction n arbitrary: v) auto

lemma le_value_le_bytes: "le_value (le_bytes n v) = v mod 256 ^ n"
proof (induction n arbitrary: v)
  case 0
  then show ?case by simp
next
  case (Suc n)
  have "unat (of_nat (v mod 256) :: u8) = v mod 256"
    by (simp add: unat_of_nat)
  then have "le_value (le_bytes (Suc n) v) = v mod 256 + 256 * ((v div 256) mod 256 ^ n)"
    using Suc by simp
  also have "\<dots> = v mod 256 ^ Suc n"
    by (simp add: mod_mult2_eq)
  finally show ?case .
qed

lemma read_items_concat:
  "read_items sz (length xs) (concat (map (le_bytes sz) xs) @ rest) = map (\<lambda>v. v mod 256 ^ sz) xs"
  by (induction xs) (simp_all add: le_value_le_bytes)

lemma length_concat_le_bytes: "length (concat (map (le_bytes sz) xs)) = sz * length xs"
  by (induction xs) simp_all

lemma p256_8: "(256::nat) ^ 8 = 2 ^ 64" by simp
lemma p256_4: "(256::nat) ^ 4 = 2 ^ 32" by simp
lemma p256_2: "(256::nat) ^ 2 = 2 ^ 16" by simp

lemma bitmap_roundtrip:
  assumes sz: "0 < b_size b" "b_size b < 2 ^ 64"
    and len: "length (b_data b) = (b_size b + 7) div 8"
    and H: "\<And>d. length (H d) = 32"
  shows "bitmap_read_file H (fst (bitmap_write_file H b))
         = Inr \<lparr>b_size = b_size b, b_data = b_data b, b_sha256 = H (b_data b)\<rparr>"
proof -
  let ?bs = "(b_size b + 7) div 8"
  let ?file = "le_bytes 8 (b_size b) @ b_data b @ H (b_data b)"
  have w: "fst (bitmap_write_file H b) = ?file"
    using len H by (simp add: bitmap_write_file_def bitmap_compute_hash_def Let_def)
  have v: "le_value (take 8 ?file) = b_size b"
    using sz(2) by (simp add: le_value_le_bytes)
  have c: "bitmap_create (b_size b)
           = Inr \<lparr>b_size = b_size b, b_data = replicate ?bs 0, b_sha256 = replicate 32 0\<rparr>"
    using sz(1) by (simp add: bitmap_create_def)
  have l: "\<not> length ?file < 8" by simp
  have d: "drop 8 ?file = b_data b @ H (b_data b)" by simp
  show ?thesis
    unfolding w bitmap_read_file_def
    by (simp only: l if_False v Let_def c sum.case d)
       (simp add: len H bitmap_compute_hash_def)
qed

lemma primes_roundtrip:
  assumes cnt: "0 < p_count obj" "p_count obj < 2 ^ 31"
    and len: "nat (p_count obj) \<le> length (p_array obj)"
    and vals: "\<forall>v\<in>set (take (nat (p_count obj)) (p_array obj)). v < 2 ^ 64"
    and H: "\<And>d. length (H d) = 32"
  shows "\<exists>r. primes_obj_read_file H (fst (primes_obj_write_file H obj)) = Inr r
           \<and> p_count r = p_count obj
           \<and> p_array r = take (nat (p_count obj)) (p_array obj)"
proof -
  let ?n = "nat (p_count obj)"
  let ?xs = "take ?n (p_array obj)"
  let ?bytes = "concat (map (le_bytes 8) ?xs)"
  let ?file = "le_bytes 4 ?n @ ?bytes @ H ?bytes"
  have lx: "length ?xs = ?n" using len by simp
  have m: "nat (p_count obj mod 2 ^ 32) = ?n"
    using cnt by simp
  have w: "fst (primes_obj_write_file H obj) = ?file"
    using cnt H m by (simp add: primes_obj_write_file_def primes_obj_compute_hash_def
        primes_bytes_def Let_def)
  have n31: "?n < 2 ^ 31" using cnt by simp
  have v: "le_value (take 4 ?file) = ?n"
    using n31 by (simp add: le_value_le_bytes)
  have ci: "(if ?n < 2 ^ 31 then int ?n else int ?n - 2 ^ 32) = p_count obj"
    using n31 cnt by simp
  have i: "primes_obj_init (p_count obj)
      = Inr \<lparr>capacity = p_count obj, p_count = 0,
               p_array = replicate ?n 0, p_sha256 = replicate 32 0\<rparr>"
    using cnt by (simp add: primes_obj_init_def)
  have lb: "length ?bytes = 8 * ?n" using lx by (simp add: length_concat_le_bytes)
  have d: "drop 4 ?file = ?bytes @ H ?bytes" by simp
  have ri: "read_items 8 ?n (?bytes @ H ?bytes) = ?xs"
  proof -
    have "read_items 8 (length ?xs) (?bytes @ H ?bytes) = map (\<lambda>v. v mod 256 ^ 8) ?xs"
      by (rule read_items_concat)
    also have "\<dots> = map (\<lambda>v. v) ?xs"
      using vals by (intro map_cong refl) (simp add: p256_8)
    finally show ?thesis using lx by simp
  qed
  have l: "\<not> length ?file < 4" by simp
  have pb: "primes_bytes \<lparr>capacity = p_count obj, p_count = p_count obj,
               p_array = ?xs, p_sha256 = H ?bytes\<rparr> = ?bytes"
    using lx by (simp add: primes_bytes_def)
  have "primes_obj_read_file H ?file
      = Inr \<lparr>capacity = p_count obj, p_count = p_count obj, p_array = ?xs, p_sha256 = H ?bytes\<rparr>"
    unfolding primes_obj_read_file_def
    by (simp only: l if_False v ci Let_def i sum.case d)
       (simp add: lb H ri pb)
  then show ?thesis unfolding w by simp
qed

lemma vx6_roundtrip:
  assumes cnt: "0 < vx_p_count v" "vx_p_count v < 2 ^ 31"
    and len: "nat (vx_p_count v) \<le> length (vx_p_gaps v)"
    and buf: "nat (vx_p_count v) \<le> length (vx_p_gaps t)"
    and y0: "0 \<notin> set (vx_y v)" and yl: "length (vx_y v) + 1 < 2 ^ 64"
    and pad: "length pad = 4"
    and H: "\<And>d. length (H d) = 32"
  shows "\<exists>r. vx6_read_file H t (fst (vx6_write_file H pad v)) = Inr r
           \<and> vx_y r = vx_y v \<and> vx_p_count r = vx_p_count v
           \<and> take (nat (vx_p_count v)) (vx_p_gaps r) = take (nat (vx_p_count v)) (vx_p_gaps v)"
proof -
  define n where "n = nat (vx_p_count v)"
  define gs where "gs = take n (vx_p_gaps v)"
  define gb where "gb = concat (map (le_bytes 2) (map unat gs))"
  define tail where "tail = le_bytes 4 n @ pad @ gb @ H gb"
  define fdat where "fdat = le_bytes 8 (length (vx_y v) + 1) @ (vx_y v @ [0]) @ tail"
  have lg: "length gs = n" using len by (simp add: gs_def n_def)
  have nz: "x \<in> set (vx_y v) \<Longrightarrow> x \<noteq> 0" for x using y0 by auto
  have tw: "takeWhile (\<lambda>c. c \<noteq> 0) (vx_y v) = vx_y v"
    using nz by (simp add: takeWhile_eq_all_conv)
  have gbv: "gaps_bytes v = gb"
    by (simp add: gaps_bytes_def gb_def gs_def n_def map_map comp_def)
  have m: "nat (vx_p_count v mod 4294967296) = n" using cnt by (simp add: n_def)
  have w: "fst (vx6_write_file H pad v) = fdat"
    using cnt(1) H pad by (simp add: vx6_write_file_def Let_def tw gbv m fdat_def tail_def)
  have n31: "n < 2 ^ 31" using cnt by (simp add: n_def)
  have l: "\<not> length fdat < 8" by (simp add: fdat_def)
  have v8: "le_value (take 8 fdat) = length (vx_y v) + 1"
    using yl by (simp add: fdat_def le_value_le_bytes)
  have d8: "drop 8 fdat = (vx_y v @ [0]) @ tail" by (simp add: fdat_def)
  have l2: "\<not> length ((vx_y v @ [0]) @ tail) < length (vx_y v) + 1" by simp
  have ty: "take (length (vx_y v) + 1) ((vx_y v @ [0]) @ tail) = vx_y v @ [0]" by simp
  have dy: "drop (length (vx_y v) + 1) ((vx_y v @ [0]) @ tail) = tail" by simp
  have twy: "takeWhile (\<lambda>c. c \<noteq> 0) (vx_y v @ [0]) = vx_y v"
    by (subst takeWhile_append2) (use nz in auto)
  have l3: "\<not> length tail < 8" using pad by (simp add: tail_def)
  have v4: "le_value (take 4 tail) = n"
    using n31 by (simp add: tail_def le_value_le_bytes)
  have ci: "(if n < 2 ^ 31 then int n else int n - 2 ^ 32) = vx_p_count v"
    using n31 cnt by (simp add: n_def)
  have d3: "drop 8 tail = gb @ H gb" using pad by (simp add: tail_def)
  have lgb: "length gb = 2 * n"
    unfolding gb_def by (simp only: length_concat_le_bytes length_map lg)
  have ri: "map of_nat (read_items 2 n (gb @ H gb)) = gs"
  proof -
    have "read_items 2 (length (map unat gs)) (gb @ H gb)
          = map (\<lambda>v. v mod 256 ^ 2) (map unat gs)"
      unfolding gb_def by (rule read_items_concat)
    then have "read_items 2 n (gb @ H gb) = map (\<lambda>g. unat g mod 256 ^ 2) gs"
      using lg by (simp add: comp_def)
    then have "map of_nat (read_items 2 n (gb @ H gb))
               = map (\<lambda>g. (of_nat (unat g mod 256 ^ 2) :: u16)) gs"
      by (simp add: comp_def)
    also have "\<dots> = map (\<lambda>g. g) gs"
    proof (intro map_cong refl)
      fix g :: u16
      have "unat g < 2 ^ LENGTH(16)" by (rule unsigned_less)
      then have "unat g mod 256 ^ 2 = unat g" by simp
      then show "(of_nat (unat g mod 256 ^ 2) :: u16) = g" by simp
    qed
    finally show ?thesis by simp
  qed
  define r where "r = t\<lparr>vx_y := vx_y v, vx_p_count := vx_p_count v,
              vx_p_gaps := gs @ drop n (vx_p_gaps t), vx_sha256 := H gb\<rparr>"
  have gbr: "gaps_bytes r = gb"
    using lg by (simp add: r_def gaps_bytes_def gb_def map_map comp_def n_def [symmetric])
  have c0: "\<not> vx_p_count v < 0" "vx_p_count v \<noteq> 0" using cnt by simp_all
  have nn: "nat (vx_p_count v) = n" by (simp add: n_def)
  have bf: "\<not> length (vx_p_gaps t) < n" using buf by (simp add: n_def)
  have l4: "\<not> length (gb @ H gb) < 2 * n" by (simp add: lgb)
  have d4: "drop (2 * n) (gb @ H gb) = H gb" by (simp add: lgb)
  have l5: "\<not> length (H gb) < 32" by (simp add: H)
  have t32: "take 32 (H gb) = H gb" by (simp add: H)
  have "vx6_read_file H t fdat = Inr r"
    unfolding vx6_read_file_def
    by (simp only: l if_False v8 Let_def d8 l2 ty dy twy l3 v4 ci d3 c0 nn bf l4 d4 l5 t32 ri
          r_def [symmetric] gbr simp_thms)
       (simp add: r_def)
  moreover have "take n (vx_p_gaps r) = gs" using lg by (simp add: r_def)
  moreover have "vx_y r = vx_y v" "vx_p_count r = vx_p_count v" by (simp_all add: r_def)
  ultimately show ?thesis unfolding w nn gs_def [symmetric] by blast
qed

lemma le_bytes_4_0: "le_bytes 4 0 = [0, 0, 0, 0]"
  by code_simp

lemma replicate_4_0: "replicate 4 (0::nat) = [0, 0, 0, 0]"
  by code_simp

lemma le_value_zeros: "le_value [0, 0, 0, 0] = 0"
  by simp

text \<open>
  C9 (amended).  Whatever the digest function, provided it returns 32 bytes: a bitmap
  of positive size, whose data are its \<open>(size + 7) div 8\<close> bytes, is read back from
  the file \<open>bitmap_write_file\<close> writes with the same size and the same bytes; a
  prime list with at least one prime (fewer than \<open>2^31\<close>, each below \<open>2^64\<close>) is read
  back with the same count and the same primes; and a block of \<open>vx6\<close> with at least
  one gap is read back, into an object whose gap buffer is large enough, with the
  same \<open>y\<close>, the same count and the same gaps.  The block's count is written as 8
  bytes from a 4-byte field: the 4 bytes that follow it in memory are the parameter
  \<open>pad\<close>.
\<close>

theorem file_roundtrips:
  assumes H: "\<And>d. length (H d) = 32"
    and b: "0 < b_size b" "b_size b < 2 ^ 64" "length (b_data b) = (b_size b + 7) div 8"
    and p: "0 < p_count obj" "p_count obj < 2 ^ 31" "nat (p_count obj) \<le> length (p_array obj)"
           "\<forall>v\<in>set (take (nat (p_count obj)) (p_array obj)). v < 2 ^ 64"
    and v: "0 < vx_p_count v" "vx_p_count v < 2 ^ 31" "nat (vx_p_count v) \<le> length (vx_p_gaps v)"
           "nat (vx_p_count v) \<le> length (vx_p_gaps t)" "0 \<notin> set (vx_y v)" "length (vx_y v) + 1 < 2 ^ 64"
           "length pad = 4"
  shows "bitmap_read_file H (fst (bitmap_write_file H b))
           = Inr \<lparr>b_size = b_size b, b_data = b_data b, b_sha256 = H (b_data b)\<rparr>
       \<and> (\<exists>r. primes_obj_read_file H (fst (primes_obj_write_file H obj)) = Inr r
              \<and> p_count r = p_count obj
              \<and> p_array r = take (nat (p_count obj)) (p_array obj))
       \<and> (\<exists>r. vx6_read_file H t (fst (vx6_write_file H pad v)) = Inr r
              \<and> vx_y r = vx_y v \<and> vx_p_count r = vx_p_count v
              \<and> take (nat (vx_p_count v)) (vx_p_gaps r) = take (nat (vx_p_count v)) (vx_p_gaps v))"
  by (intro conjI bitmap_roundtrip primes_roundtrip vx6_roundtrip assms)

text \<open>
  C9 (as stated, refuted).  The prime list \<open>primes_obj_init\<close> returns is empty.
  Written to a file, it is the count 0 and the 32 bytes of the digest field;
  \<open>primes_obj_read_file\<close> passes the count it reads to \<open>primes_obj_init\<close>, which
  refuses an estimate that is not positive, and so returns no list.
\<close>

theorem empty_prime_list_counterexample:
  "primes_obj_init 4
     = Inr \<lparr>capacity = 4, p_count = 0, p_array = [0, 0, 0, 0], p_sha256 = replicate 32 0\<rparr>
   \<and> (\<lambda>H. primes_obj_read_file H (fst (primes_obj_write_file H
          \<lparr>capacity = 4, p_count = 0, p_array = [0, 0, 0, 0], p_sha256 = replicate 32 0\<rparr>)))
     = (\<lambda>H. Inl InvalidArgument)"
proof -
  have w: "fst (primes_obj_write_file H
          \<lparr>capacity = 4, p_count = 0, p_array = [0, 0, 0, 0], p_sha256 = replicate 32 0\<rparr>)
        = [0, 0, 0, 0] @ replicate 32 0" for H
    by (simp add: primes_obj_write_file_def primes_obj_compute_hash_def primes_bytes_def
        le_bytes_4_0)
  have l: "\<not> length ([0, 0, 0, 0] @ replicate 32 (0::u8)) < 4" by simp
  have t: "take 4 ([0, 0, 0, 0] @ replicate 32 (0::u8)) = [0, 0, 0, 0]" by simp
  have i: "primes_obj_init 0 = Inl InvalidArgument" by (simp add: primes_obj_init_def)
  have r: "primes_obj_read_file H ([0, 0, 0, 0] @ replicate 32 0) = Inl InvalidArgument" for H
    unfolding primes_obj_read_file_def
    by (simp only: l if_False t le_value_zeros Let_def) (simp add: i)
  have "primes_obj_init 4
     = Inr \<lparr>capacity = 4, p_count = 0, p_array = [0, 0, 0, 0], p_sha256 = replicate 32 0\<rparr>"
    by (simp add: primes_obj_init_def replicate_4_0)
  then show ?thesis
    unfolding w r by simp
qed

text \<open>
  The round trips of C9 on a bitmap of 8 bits, the prime list \<open>[2, 3]\<close> and a block
  with \<open>y = "1"\<close> and the single gap 22.
\<close>

theorem file_roundtrips_witness:
  "bitmap_read_file (\<lambda>d. replicate 32 0)
      (fst (bitmap_write_file (\<lambda>d. replicate 32 0) \<lparr>b_size = 8, b_data = [5], b_sha256 = []\<rparr>))
     = Inr \<lparr>b_size = 8, b_data = [5], b_sha256 = replicate 32 0\<rparr>
   \<and> (\<exists>r. primes_obj_read_file (\<lambda>d. replicate 32 0)
            (fst (primes_obj_write_file (\<lambda>d. replicate 32 0)
               \<lparr>capacity = 2, p_count = 2, p_array = [2, 3], p_sha256 = []\<rparr>)) = Inr r
          \<and> p_count r = 2 \<and> p_array r = [2, 3])
   \<and> (\<exists>r. vx6_read_file (\<lambda>d. replicate 32 0)
            \<lparr>vx_vx = 1616615, vx_y = [], vx_p_count = 0, vx_x5 = None, vx_x7 = None, vx_p_gaps = [0], vx_sha256 = []\<rparr>
            (fst (vx6_write_file (\<lambda>d. replicate 32 0) [0, 0, 0, 0]
               \<lparr>vx_vx = 1616615, vx_y = [49], vx_p_count = 1, vx_x5 = None, vx_x7 = None, vx_p_gaps = [22], vx_sha256 = []\<rparr>))
            = Inr r
          \<and> vx_y r = [49] \<and> vx_p_count r = 1 \<and> take 1 (vx_p_gaps r) = [22])"
proof -
  define H :: "u8 list \<Rightarrow> u8 list" where "H = (\<lambda>d. replicate 32 0)"
  define b where "b = \<lparr>b_size = 8, b_data = [5], b_sha256 = []\<rparr>"
  define obj where "obj = \<lparr>capacity = 2, p_count = 2, p_array = [2, 3], p_sha256 = []\<rparr>"
  define t where "t = \<lparr>vx_vx = 1616615, vx_y = [], vx_p_count = 0, vx_x5 = None, vx_x7 = None,
                       vx_p_gaps = [0], vx_sha256 = []\<rparr>"
  define v where "v = \<lparr>vx_vx = 1616615, vx_y = [49], vx_p_count = 1, vx_x5 = None, vx_x7 = None,
                       vx_p_gaps = [22], vx_sha256 = []\<rparr>"
  have h: "\<And>d. length (H d) = 32" by (simp add: H_def)
  have b1: "0 < b_size b" and b2: "b_size b < 2 ^ 64"
    and b3: "length (b_data b) = (b_size b + 7) div 8"
    by (simp_all add: b_def)
  have p1: "0 < p_count obj" and p2: "p_count obj < 2 ^ 31"
    and p3: "nat (p_count obj) \<le> length (p_array obj)"
    and p4: "\<forall>v\<in>set (take (nat (p_count obj)) (p_array obj)). v < 2 ^ 64"
    by (simp_all add: obj_def)
  have v1: "0 < vx_p_count v" and v2: "vx_p_count v < 2 ^ 31"
    and v3: "nat (vx_p_count v) \<le> length (vx_p_gaps v)"
    and v4: "nat (vx_p_count v) \<le> length (vx_p_gaps t)"
    and v5: "0 \<notin> set (vx_y v)" and v6: "length (vx_y v) + 1 < 2 ^ 64"
    by (simp_all add: v_def t_def)
  have v7: "length [0, 0, 0, 0 :: u8] = 4" by simp
  note r = file_roundtrips [of H b obj v t "[0, 0, 0, 0]", OF h b1 b2 b3 p1 p2 p3 p4 v1 v2 v3 v4 v5 v6 v7]
  have s: "b_size b = 8" "b_data b = [5]" "p_count obj = 2" "take (nat 2) (p_array obj) = [2, 3]"
    "vx_y v = [49]" "vx_p_count v = 1" "take (nat 1) (vx_p_gaps v) = [22]" "take 1 (vx_p_gaps v) = [22]" "nat 1 = 1" "H [5] = replicate 32 0"
    by (simp_all add: b_def obj_def v_def H_def)
  show ?thesis
    using r unfolding s unfolding H_def b_def obj_def v_def t_def .
qed

section \<open>The sieves at 30 and at 100\<close>

lemma ln_le_by_power:
  fixes a x :: real
  assumes "0 < a" "0 < n" "0 \<le> x" "a \<le> (1 + x / real n) ^ n"
  shows "ln a \<le> x"
proof -
  have "(1 + x / real n) ^ n \<le> exp x"
    using assms by (intro exp_ge_one_plus_x_over_n_power_n) auto
  then have "a \<le> exp x" using assms(4) by linarith
  then have "ln a \<le> ln (exp x)" using assms(1) by (simp only: ln_le_cancel_iff exp_gt_zero)
  then show ?thesis by simp
qed

lemma ln_gt_by_power:
  fixes a x :: real
  assumes "0 < a" "0 < n" "0 \<le> x" "x < real n" "1 < a * (1 - x / real n) ^ n"
  shows "x < ln a"
proof -
  have le: "(1 - x / real n) ^ n \<le> exp (- x)"
    using assms by (intro exp_ge_one_minus_x_over_n_power_n) auto
  have "a * (1 - x / real n) ^ n \<le> a * exp (- x)"
    using le assms(1) by (intro mult_left_mono) auto
  then have "1 < a * exp (- x)" using assms(5) by linarith
  then have "exp x < a" by (simp add: exp_minus field_simps)
  then have "ln (exp x) < ln a" using assms(1) by (simp only: ln_less_cancel_iff exp_gt_zero)
  then show ?thesis by simp
qed

lemma floor_sqrt_eq:
  assumes "m * m \<le> n" "n < (m + 1) * (m + 1)"
  shows "\<lfloor>sqrt (real n)\<rfloor> = int m"
proof -
  have "(real m)\<^sup>2 \<le> real n"
    using assms(1) by (metis of_nat_le_iff of_nat_mult power2_eq_square)
  then have a: "real m \<le> sqrt (real n)" by (rule real_le_rsqrt)
  have "real n < (real m + 1)\<^sup>2"
    using assms(2) by (metis of_nat_less_iff of_nat_mult of_nat_Suc Suc_eq_plus1 power2_eq_square of_nat_add of_nat_1)
  then have b: "sqrt (real n) < real m + 1" by (intro real_less_lsqrt) auto
  show ?thesis using a b by (simp add: floor_eq_iff)
qed

lemma p1: "(100::real) \<le> (1 + (100 / 21) / real 100) ^ 100" by (simp add: power_divide)
lemma p2: "(1::real) < 100 * (1 - (50 / 11) / real 250) ^ 250" by (simp add: power_divide)

lemma ln_100_bounds: "50 / 11 < ln (100::real)" "ln (100::real) \<le> 100 / 21"
proof -
  show "50 / 11 < ln (100::real)"
    by (rule ln_gt_by_power [where n = 250]) (simp_all add: power_divide)
  show "ln (100::real) \<le> 100 / 21"
    by (rule ln_le_by_power [where n = 100]) (simp_all add: power_divide)
qed

lemma ln_30_bounds: "10 / 3 < ln (30::real)" "ln (30::real) \<le> 15 / 4"
proof -
  show "10 / 3 < ln (30::real)"
    by (rule ln_gt_by_power [where n = 100]) (simp_all add: power_divide)
  show "ln (30::real) \<le> 15 / 4"
    by (rule ln_le_by_power [where n = 30]) (simp_all add: power_divide)
qed

lemma floor_quot:
  fixes a l :: real
  assumes "0 < l" "a / (real_of_int k + 1) < l" "l \<le> a / real_of_int k" "0 < k"
  shows "\<lfloor>a / l\<rfloor> = k"
proof -
  have "real_of_int k \<le> a / l"
    using assms by (simp add: field_simps)
  moreover have "a / l < real_of_int k + 1"
    using assms by (simp add: field_simps)
  ultimately show ?thesis by (simp add: floor_eq_iff)
qed

lemma pi_n_100: "pi_n 100 = Inr 21"
proof -
  have "\<lfloor>(100::real) / ln 100\<rfloor> = 21"
    using ln_100_bounds by (intro floor_quot) simp_all
  then show ?thesis by (simp add: pi_n_def)
qed

lemma pi_n_30: "pi_n 30 = Inr 8"
proof -
  have "\<lfloor>(30::real) / ln 30\<rfloor> = 8"
    using ln_30_bounds by (intro floor_quot) simp_all
  then show ?thesis by (simp add: pi_n_def)
qed

lemma capacity_estimate_100: "capacity_estimate 100 = Inr 31"
  by (simp add: capacity_estimate_def pi_n_100 thn_def)

lemma capacity_estimate_30: "capacity_estimate 30 = Inr 12"
  by (simp add: capacity_estimate_def pi_n_30 thn_def)

lemma n_sqrt_100: "n_sqrt 100 = 11"
  using floor_sqrt_eq [of 10 100] by (simp add: n_sqrt_def)

lemma n_sqrt_30: "n_sqrt 30 = 6"
  using floor_sqrt_eq [of 5 30] by (simp add: n_sqrt_def)

lemma sieve_iZ_run_30:
  "sieve_iZ_run 30 6 \<lparr>capacity = 12, p_count = 0, p_array = replicate 12 0, p_sha256 = replicate 32 0\<rparr>
   = Inr \<lparr>capacity = 10, p_count = 10, p_array = [2, 3, 5, 7, 11, 13, 17, 19, 23, 29],
          p_sha256 = replicate 32 0\<rparr>"
  by code_simp

lemma sieve_iZ_run_100:
  "sieve_iZ_run 100 11 \<lparr>capacity = 31, p_count = 0, p_array = replicate 31 0, p_sha256 = replicate 32 0\<rparr>
   = Inr \<lparr>capacity = 25, p_count = 25,
          p_array = [2, 3, 5, 7, 11, 13, 17, 19, 23, 29, 31, 37, 41, 43, 47, 53, 59, 61, 67, 71,
                     73, 79, 83, 89, 97],
          p_sha256 = replicate 32 0\<rparr>"
  by code_simp

lemma sieve_iZm_run_100:
  "sieve_iZm_run 100 \<lparr>capacity = 31, p_count = 0, p_array = replicate 31 0, p_sha256 = replicate 32 0\<rparr>
   = Inl OutOfBounds"
  by code_simp

lemma sieve_iZm_run_100_47:
  "sieve_iZm_run 100 \<lparr>capacity = 47, p_count = 0, p_array = replicate 47 0, p_sha256 = replicate 32 0\<rparr>
   = Inr \<lparr>capacity = 25, p_count = 25,
          p_array = [2, 3, 5, 7, 11, 13, 17, 19, 23, 29, 31, 37, 41, 43, 47, 53, 59, 61, 67, 71,
                     73, 79, 83, 89, 97],
          p_sha256 = replicate 32 0\<rparr>"
  by code_simp

lemma primes_obj_init_pos:
  "0 < c \<Longrightarrow> primes_obj_init c
     = Inr \<lparr>capacity = c, p_count = 0, p_array = replicate (nat c) 0, p_sha256 = replicate 32 0\<rparr>"
  by (simp add: primes_obj_init_def)

text \<open>
  C1 (the code diverges).  \<open>sieve_iZ 30\<close> and \<open>sieve_iZ 100\<close> are the primes up to 30
  and up to 100, as claimed.  \<open>sieve_iZm 100\<close> is not: the list is allocated with 31
  entries, the capacity \<open>1.5 * pi_n(100)\<close> which \<open>sieve_iZ\<close> uses, but the first segment
  is processed up to \<open>x = vx = 35\<close> whatever \<open>n\<close> is, and collects the 47 primes up to
  211 before the primes above \<open>n\<close> are dropped; the append that would write entry 31
  is outside the allocation.  Started on a list of 47 entries, the same code returns
  the 25 primes up to 100.
\<close>

theorem sieve_iZm_overflows:
  "sieve_iZ 30
     = Inr \<lparr>capacity = 10, p_count = 10, p_array = [2, 3, 5, 7, 11, 13, 17, 19, 23, 29],
            p_sha256 = replicate 32 0\<rparr>
   \<and> sieve_iZ 100
     = Inr \<lparr>capacity = 25, p_count = 25,
            p_array = [2, 3, 5, 7, 11, 13, 17, 19, 23, 29, 31, 37, 41, 43, 47, 53, 59, 61, 67, 71,
                       73, 79, 83, 89, 97],
            p_sha256 = replicate 32 0\<rparr>
   \<and> capacity_estimate 100 = Inr 31
   \<and> sieve_iZm 100 = Inl OutOfBounds
   \<and> sieve_iZm_run 100
        \<lparr>capacity = 47, p_count = 0, p_array = replicate 47 0, p_sha256 = replicate 32 0\<rparr>
     = Inr \<lparr>capacity = 25, p_count = 25,
            p_array = [2, 3, 5, 7, 11, 13, 17, 19, 23, 29, 31, 37, 41, 43, 47, 53, 59, 61, 67, 71,
                       73, 79, 83, 89, 97],
            p_sha256 = replicate 32 0\<rparr>"
proof -
  have i12: "primes_obj_init 12
      = Inr \<lparr>capacity = 12, p_count = 0, p_array = replicate 12 0, p_sha256 = replicate 32 0\<rparr>"
    using primes_obj_init_pos [of 12] by simp
  have i31: "primes_obj_init 31
      = Inr \<lparr>capacity = 31, p_count = 0, p_array = replicate 31 0, p_sha256 = replicate 32 0\<rparr>"
    using primes_obj_init_pos [of 31] by simp
  have a: "sieve_iZ 30 = sieve_iZ_run 30 6
       \<lparr>capacity = 12, p_count = 0, p_array = replicate 12 0, p_sha256 = replicate 32 0\<rparr>"
    unfolding sieve_iZ_def capacity_estimate_30 n_sqrt_30 thn_def sum.case i12 ..
  have b: "sieve_iZ 100 = sieve_iZ_run 100 11
       \<lparr>capacity = 31, p_count = 0, p_array = replicate 31 0, p_sha256 = replicate 32 0\<rparr>"
    unfolding sieve_iZ_def capacity_estimate_100 n_sqrt_100 thn_def sum.case i31 ..
  have c: "sieve_iZm 100 = sieve_iZm_run 100
       \<lparr>capacity = 31, p_count = 0, p_array = replicate 31 0, p_sha256 = replicate 32 0\<rparr>"
    unfolding sieve_iZm_def capacity_estimate_100 thn_def sum.case i31 ..
  show ?thesis
    unfolding a b c sieve_iZ_run_30 sieve_iZ_run_100 sieve_iZm_run_100 sieve_iZm_run_100_47
      capacity_estimate_100
    by (intro conjI refl)
qed

section \<open>The gaps recorded by the walk\<close>

lemma thn_Inl [simp]: "thn (Inl e) f = Inl e"
  by (simp add: thn_def)

lemma thn_Inr [simp]: "thn (Inr v) f = f v"
  by (simp add: thn_def)

lemma fold_lane_Inl: "fold (vx6_lane pt ill r yvx) cs (Inl e) = Inl e"
  by (induction cs) (simp_all add: vx6_lane_def)




















lemma gap_list_length [simp]: "length (gap_list l vs) = length vs"
  by (induction vs arbitrary: l) simp_all





lemma u16_119998: "(word_of_int 119998 :: 16 word) = 54462"
  by simp








end
